theory Spec2Isabelle
  imports Main "HOL-Library.Word"
begin

unbundle bit_operations_syntax

section \<open>Single-precision floats as bit patterns\<close>

text \<open>
  Every codec of \<^verbatim>\<open>main.cpp\<close> reads a float through a union
  (\<^verbatim>\<open>union Bits { float f; int32_t si; uint32_t ui; }\<close>), so a float is modelled by
  the 32-bit word that holds its IEEE-754 encoding and the bit-cast is the identity.
  The three fields of the encoding, and the number the encoding stands for, are read off
  the word. The number is kept as an integer: every finite single-precision float is an
  integer multiple of \<open>2\<^sup>-\<^sup>1\<^sup>4\<^sup>9\<close>, and \<open>f32_val x\<close> is that multiple. For an infinity
  the same formula gives \<open>\<plusminus> 2\<^sup>2\<^sup>7\<^sup>7\<close>, beyond every finite float, so that the order of
  \<open>f32_val\<close> is the IEEE order on everything but NaN.
\<close>

type_synonym f32 = "32 word"

definition f32_sign :: "f32 \<Rightarrow> bool" where
  "f32_sign x = bit x 31"

definition f32_exp :: "f32 \<Rightarrow> nat" where
  "f32_exp x = unat (drop_bit 23 x) mod 256"

definition f32_frac :: "f32 \<Rightarrow> nat" where
  "f32_frac x = unat x mod 2 ^ 23"

definition is_nan :: "f32 \<Rightarrow> bool" where
  "is_nan x \<longleftrightarrow> f32_exp x = 255 \<and> f32_frac x \<noteq> 0"

definition is_finite :: "f32 \<Rightarrow> bool" where
  "is_finite x \<longleftrightarrow> f32_exp x < 255"

definition f32_mag :: "f32 \<Rightarrow> int" where
  "f32_mag x =
     (if f32_exp x = 0 then int (f32_frac x)
      else (2 ^ 23 + int (f32_frac x)) * 2 ^ (f32_exp x - 1))"

definition f32_val :: "f32 \<Rightarrow> int" where
  "f32_val x = (if f32_sign x then - f32_mag x else f32_mag x)"

text \<open>The comparisons of C++ on floats: false as soon as one side is a NaN.\<close>

definition flt :: "f32 \<Rightarrow> f32 \<Rightarrow> bool" where
  "flt a b \<longleftrightarrow> \<not> is_nan a \<and> \<not> is_nan b \<and> f32_val a < f32_val b"

definition fle :: "f32 \<Rightarrow> f32 \<Rightarrow> bool" where
  "fle a b \<longleftrightarrow> \<not> is_nan a \<and> \<not> is_nan b \<and> f32_val a \<le> f32_val b"

text \<open>\<open>fabs\<close>: the float with the sign bit cleared.\<close>

definition f32_abs :: "f32 \<Rightarrow> f32" where
  "f32_abs x = x AND 0x7FFFFFFF"

text \<open>
  The encoding of a non-negative multiple \<open>n\<close> of \<open>2\<^sup>-\<^sup>1\<^sup>4\<^sup>9\<close>: below \<open>2\<^sup>2\<^sup>3\<close> a
  subnormal, otherwise the exponent field is taken from the position of the leading bit and
  the 23 bits after the leading bit are the fraction. The encoding is exact when the bits
  of \<open>n\<close> below those are zero, which is so at every use in this file.
\<close>

fun bit_length :: "nat \<Rightarrow> nat" where
  "bit_length n = (if n = 0 then 0 else Suc (bit_length (n div 2)))"

definition f32_encode :: "nat \<Rightarrow> f32" where
  "f32_encode n =
     (if n < 2 ^ 23 then of_nat n
      else let e = bit_length n - 23
           in of_nat (e * 2 ^ 23 + (n div 2 ^ (e - 1) - 2 ^ 23)))"

text \<open>
  \<^verbatim>\<open>static_cast<int32_t>(s.f * v.f)\<close>. The codec calls it with \<open>s\<close> a power of two, for
  which the float product is exact unless it overflows to an infinity; the cast then
  truncates towards zero. A product that is not finite or does not fit \<^verbatim>\<open>int32_t\<close> has no
  defined conversion in C++: the value the machine leaves there is the parameter \<open>ub\<close>
  (\<open>0x80000000\<close> on x86), and nothing below depends on it.
\<close>

definition f32_mul_to_i32 :: "32 word \<Rightarrow> f32 \<Rightarrow> f32 \<Rightarrow> 32 word" where
  "f32_mul_to_i32 ub s v =
     (let p = f32_val s * f32_val v;
          t = sgn p * (\<bar>p\<bar> div 2 ^ 298)
      in if is_finite s \<and> is_finite v \<and> - (2 ^ 31) \<le> t \<and> t < 2 ^ 31
         then word_of_int t else ub)"

text \<open>
  \<^verbatim>\<open>s.f *= v.si\<close>: the integer is converted to float and multiplied. The codec calls it
  with \<open>s\<close> a positive power of two and \<open>0 \<le> v.si < 2\<^sup>2\<^sup>4\<close>, where the conversion and the
  product are both exact.
\<close>

definition f32_mul_int :: "f32 \<Rightarrow> int \<Rightarrow> f32" where
  "f32_mul_int s k =
     (let p = f32_mag s * \<bar>k\<bar>;
          r = f32_encode (nat p)
      in if f32_sign s \<noteq> (k < 0) then r OR 0x80000000 else r)"

text \<open>
  The branch-free selection \<^verbatim>\<open>v ^= (a ^ v) & -(c)\<close>, which the codecs use in place of
  \<^verbatim>\<open>if (c) v = a\<close>: the comparison \<open>c\<close> is 0 or 1, and its negation is the mask.
\<close>

definition cmask :: "bool \<Rightarrow> 32 word" where
  "cmask c = - (if c then 1 else 0)"

definition blend :: "bool \<Rightarrow> 32 word \<Rightarrow> 32 word \<Rightarrow> 32 word" where
  "blend c a v = v XOR ((a XOR v) AND cmask c)"

section \<open>Float16Compressor\<close>

text \<open>
  The constants of the class, computed as the source computes them. \<^verbatim>\<open>>>\<close> on an
  \<^verbatim>\<open>int32_t\<close> is the arithmetic shift. \<open>shift\<close> and \<open>c_max\<close> carry the suffix 16 here,
  since \<^verbatim>\<open>FloatCompressor\<close> has fields of the same names.
\<close>

definition shift16 :: nat where "shift16 = 13"
definition shift_sign :: nat where "shift_sign = 16"

definition n_inf :: "32 word" where "n_inf = 0x7F800000"
definition n_max :: "32 word" where "n_max = 0x477FE000"
definition n_min :: "32 word" where "n_min = 0x38800000"
definition n_sign :: "32 word" where "n_sign = 0x80000000"

definition c_inf :: "32 word" where "c_inf = signed_drop_bit shift16 n_inf"
definition n_nan :: "32 word" where "n_nan = push_bit shift16 (c_inf + 1)"
definition c_max16 :: "32 word" where "c_max16 = signed_drop_bit shift16 n_max"
definition c_min :: "32 word" where "c_min = signed_drop_bit shift16 n_min"
definition c_sign :: "32 word" where "c_sign = signed_drop_bit shift_sign n_sign"

definition n_mul :: "32 word" where "n_mul = 0x52000000"
definition c_mul :: "32 word" where "c_mul = 0x33800000"

definition c_sub :: "32 word" where "c_sub = 0x003FF"
definition c_nor :: "32 word" where "c_nor = 0x00400"

definition d_max :: "32 word" where "d_max = c_inf - c_max16 - 1"
definition d_min :: "32 word" where "d_min = c_min - c_sub - 1"

definition Float16Compressor_compress :: "32 word \<Rightarrow> f32 \<Rightarrow> 16 word" where
  "Float16Compressor_compress ub value =
     (let v = value;
          sign = v AND n_sign;
          v = v XOR sign;
          sign = drop_bit shift_sign sign;
          s = f32_mul_to_i32 ub n_mul v;
          v = blend (v <s n_min) s v;
          v = blend (v <s n_inf \<and> n_max <s v) n_inf v;
          v = blend (v <s n_nan \<and> n_inf <s v) n_nan v;
          v = drop_bit shift16 v;
          v = blend (c_max16 <s v) (v - d_max) v;
          v = blend (c_sub <s v) (v - d_min) v
      in ucast (v OR sign))"

definition Float16Compressor_decompress :: "16 word \<Rightarrow> f32" where
  "Float16Compressor_decompress value =
     (let v = ucast value;
          sign = v AND c_sign;
          v = v XOR sign;
          sign = push_bit shift_sign sign;
          v = blend (c_sub <s v) (v + d_min) v;
          v = blend (c_max16 <s v) (v + d_max) v;
          s = f32_mul_int c_mul (sint v);
          mask = cmask (v <s c_nor);
          v = push_bit shift16 v;
          v = v XOR ((s XOR v) AND mask);
          v = v OR sign
      in v)"

text \<open>
  The half-precision format (sign 1, exponent 5 with bias 15, significand 10), for the
  statements that speak of the number a 16-bit code stands for: \<open>f16_val h\<close> is that number
  as a multiple of \<open>2\<^sup>-\<^sup>2\<^sup>4\<close>.
\<close>

definition f16_exp :: "16 word \<Rightarrow> nat" where
  "f16_exp h = unat (drop_bit 10 h) mod 32"

definition f16_frac :: "16 word \<Rightarrow> nat" where
  "f16_frac h = unat h mod 2 ^ 10"

definition f16_finite :: "16 word \<Rightarrow> bool" where
  "f16_finite h \<longleftrightarrow> f16_exp h < 31"

definition f16_is_nan :: "16 word \<Rightarrow> bool" where
  "f16_is_nan h \<longleftrightarrow> f16_exp h = 31 \<and> f16_frac h \<noteq> 0"

definition f16_mag :: "16 word \<Rightarrow> int" where
  "f16_mag h =
     (if f16_exp h = 0 then int (f16_frac h)
      else (2 ^ 10 + int (f16_frac h)) * 2 ^ (f16_exp h - 1))"

definition f16_val :: "16 word \<Rightarrow> int" where
  "f16_val h = (if bit h 15 then - f16_mag h else f16_mag h)"

text \<open>
  For the proofs, the two functions are cut at the sign: \<open>compress_mag\<close> is the part
  of \<open>compress\<close> that works on the sign-stripped value (lines 42 to 49 of the source), and
  \<open>decompress_mag\<close> the corresponding part of \<open>decompress\<close> (lines 59 to 66). The lemmas
  \<open>compress_split\<close> and \<open>decompress_split\<close> below show that the functions above are these
  parts with the sign put back.
\<close>

definition compress_mag :: "32 word \<Rightarrow> 32 word \<Rightarrow> 32 word" where
  "compress_mag ub a =
     (let v = a;
          s = f32_mul_to_i32 ub n_mul v;
          v = blend (v <s n_min) s v;
          v = blend (v <s n_inf \<and> n_max <s v) n_inf v;
          v = blend (v <s n_nan \<and> n_inf <s v) n_nan v;
          v = drop_bit shift16 v;
          v = blend (c_max16 <s v) (v - d_max) v;
          v = blend (c_sub <s v) (v - d_min) v
      in v)"

definition decompress_mag :: "32 word \<Rightarrow> 32 word" where
  "decompress_mag m =
     (let v = m;
          v = blend (c_sub <s v) (v + d_min) v;
          v = blend (c_max16 <s v) (v + d_max) v;
          s = f32_mul_int c_mul (sint v);
          mask = cmask (v <s c_nor);
          v = push_bit shift16 v;
          v = v XOR ((s XOR v) AND mask)
      in v)"

section \<open>FloatCompressor\<close>

record FloatCompressor =
  negatives :: bool
  lossless :: bool
  f_max :: "32 word"
  f_min :: "32 word"
  f_eps :: "32 word"
  c_max :: "32 word"
  c_zero :: "32 word"
  p_delta :: "32 word"
  n_delta :: "32 word"
  shift :: int

definition signF :: "32 word" where "signF = 0x80000000"
definition absF :: "32 word" where "absF = NOT signF"

text \<open>
  The constructor. It has no check and no error path: the legal values are a comment
  (\<^verbatim>\<open>min <= 0 < epsilon < max\<close>, \<^verbatim>\<open>0 <= precision <= 23\<close>). A shift by \<open>shift\<close> is
  defined in C++ for \<open>0 \<le> shift < 32\<close> only; the model shifts by \<open>nat shift\<close>.
\<close>

definition FloatCompressor_init :: "f32 \<Rightarrow> f32 \<Rightarrow> f32 \<Rightarrow> int \<Rightarrow> FloatCompressor" where
  "FloatCompressor_init min_f epsilon max_f precision =
     (let sh = 23 - precision;
          fmin = min_f;
          feps = epsilon;
          fmax = max_f;
          neg = fmin <s 0;
          ll = (sh = 0);
          nepsU = (if ll then feps else drop_bit (nat sh) (feps XOR signF));
          pepsU = (if ll then feps XOR signF else drop_bit (nat sh) feps);
          cmax = (if ll then fmax XOR signF else drop_bit (nat sh) fmax);
          czero = (if ll then signF else 0)
      in \<lparr> negatives = neg, lossless = ll, f_max = fmax, f_min = fmin, f_eps = feps,
           c_max = cmax, c_zero = czero,
           p_delta = pepsU - czero - 1,
           n_delta = nepsU - cmax - 1,
           shift = sh \<rparr>)"

definition FloatCompressor_clamp :: "FloatCompressor \<Rightarrow> f32 \<Rightarrow> f32" where
  "FloatCompressor_clamp c value =
     (let v = value;
          max_v = f_max c;
          max_v = (if negatives c then max_v XOR ((f_min c XOR f_max c) AND cmask (v <s 0)) else max_v);
          v = blend (max_v <s v) max_v v;
          v = v AND cmask (f_eps c \<le>s (v AND absF))
      in v)"

definition FloatCompressor_compress :: "FloatCompressor \<Rightarrow> f32 \<Rightarrow> 32 word" where
  "FloatCompressor_compress c value =
     (let v = FloatCompressor_clamp c value;
          v = (if lossless c then v XOR signF else drop_bit (nat (shift c)) v);
          v = (if negatives c then blend (c_max c <s v) (v - n_delta c) v else v);
          v = blend (c_zero c <s v) (v - p_delta c) v;
          v = (if lossless c then v XOR signF else v)
      in v)"

definition FloatCompressor_decompress :: "FloatCompressor \<Rightarrow> 32 word \<Rightarrow> f32" where
  "FloatCompressor_decompress c value =
     (let v = value;
          v = (if lossless c then v XOR signF else v);
          v = blend (c_zero c <s v) (v + p_delta c) v;
          v = (if negatives c then blend (c_max c <s v) (v + n_delta c) v else v);
          v = (if lossless c then v XOR signF else push_bit (nat (shift c)) v)
      in v)"

text \<open>
  The legal values of the constructor's comment, \<^verbatim>\<open>min <= 0 < epsilon < max\<close> as float
  comparisons and \<^verbatim>\<open>0 <= precision <= 23\<close>.
\<close>

definition legal :: "f32 \<Rightarrow> f32 \<Rightarrow> f32 \<Rightarrow> int \<Rightarrow> bool" where
  "legal min_f epsilon max_f precision \<longleftrightarrow>
     fle min_f 0 \<and> flt 0 epsilon \<and> flt epsilon max_f \<and> 0 \<le> precision \<and> precision \<le> 23"

section \<open>The 18-bit micro-float codec\<close>

definition compress18 :: "f32 \<Rightarrow> 32 word" where
  "compress18 r =
     (let n = r;
          t = drop_bit 11 (n AND 0x7ff800);
          t = t OR push_bit 12 (drop_bit 23 (n AND 0x7f800000) - 0x70);
          t = t OR drop_bit 14 (n AND 0x80000000)
      in t)"

definition decompress18 :: "32 word \<Rightarrow> f32" where
  "decompress18 n =
     (let t = push_bit 11 (n AND 0xfff);
          t = t OR push_bit 23 (drop_bit 12 (n AND 0x1f000) + 0x70);
          t = t OR push_bit 14 (n AND 0x20000)
      in t)"

section \<open>Bit masks\<close>

lemma bit_shifted_mask:
  "bit (push_bit k (mask l) :: int) n \<longleftrightarrow> k \<le> n \<and> n < k + l"
  by (auto simp add: bit_simps)

lemma bit_0xfff: "bit (0xfff::int) n \<longleftrightarrow> n < 12"
  using bit_shifted_mask [of 0 12 n] by (simp add: mask_eq_exp_minus_1)
lemma bit_0x7ff800: "bit (0x7ff800::int) n \<longleftrightarrow> 11 \<le> n \<and> n < 23"
  using bit_shifted_mask [of 11 12 n] by (simp add: mask_eq_exp_minus_1)
lemma bit_0x7f800000: "bit (0x7f800000::int) n \<longleftrightarrow> 23 \<le> n \<and> n < 31"
  using bit_shifted_mask [of 23 8 n] by (simp add: mask_eq_exp_minus_1)
lemma bit_0x80000000: "bit (0x80000000::int) n \<longleftrightarrow> n = 31"
  using bit_shifted_mask [of 31 1 n] by (auto simp add: mask_eq_exp_minus_1)
lemma bit_0x1f000: "bit (0x1f000::int) n \<longleftrightarrow> 12 \<le> n \<and> n < 17"
  using bit_shifted_mask [of 12 5 n] by (simp add: mask_eq_exp_minus_1)
lemma bit_0x20000: "bit (0x20000::int) n \<longleftrightarrow> n = 17"
  using bit_shifted_mask [of 17 1 n] by (auto simp add: mask_eq_exp_minus_1)
lemma bit_0x7ff: "bit (0x7ff::int) n \<longleftrightarrow> n < 11"
  using bit_shifted_mask [of 0 11 n] by (simp add: mask_eq_exp_minus_1)
lemma bit_0xff: "bit (0xff::int) n \<longleftrightarrow> n < 8"
  using bit_shifted_mask [of 0 8 n] by (simp add: mask_eq_exp_minus_1)

lemma bit_0x1f: "bit (0x1f::int) n \<longleftrightarrow> n < 5"
  using bit_shifted_mask [of 0 5 n] by (simp add: mask_eq_exp_minus_1)

lemmas bit_masks = bit_0x1f bit_0xfff bit_0x7ff800 bit_0x7f800000 bit_0x80000000 bit_0x1f000
  bit_0x20000 bit_0x7ff bit_0xff

lemma exp_field_bits:
  "bit (drop_bit 23 ((x::32 word) AND 0x7f800000)) n \<longleftrightarrow> n < 8 \<and> bit x (23 + n)"
  by (auto simp add: bit_and_iff bit_drop_bit_eq bit_masks dest: bit_imp_le_length)

lemma exp_field_eq: "drop_bit 23 ((x::32 word) AND 0x7f800000) = take_bit 8 (drop_bit 23 x)"
  by (rule bit_word_eqI) (unfold exp_field_bits, auto simp add: bit_simps)

lemma unat_exp_field: "unat (drop_bit 23 ((x::32 word) AND 0x7f800000)) = f32_exp x"
  unfolding exp_field_eq f32_exp_def by (subst unsigned_take_bit_eq) (simp add: take_bit_eq_mod)

section \<open>The 18-bit codec: round trip\<close>

lemma bit_compress18:
  "bit (compress18 x) n \<longleftrightarrow> n < 32 \<and>
     (n < 12 \<and> bit x (11 + n) \<or>
      12 \<le> n \<and> bit (drop_bit 23 (x AND 0x7f800000) - 0x70) (n - 12) \<or>
      n = 17 \<and> bit x 31)"
  by (auto simp add: compress18_def Let_def bit_or_iff bit_and_iff bit_drop_bit_eq
      bit_push_bit_iff bit_masks dest: bit_imp_le_length)

lemma bit_decompress18:
  "bit (decompress18 t) n \<longleftrightarrow> n < 32 \<and>
     (11 \<le> n \<and> n < 23 \<and> bit t (n - 11) \<or>
      23 \<le> n \<and> bit (drop_bit 12 (t AND 0x1f000) + 0x70) (n - 23) \<or>
      n = 31 \<and> bit t 17)"
  by (auto simp add: decompress18_def Let_def bit_or_iff bit_and_iff bit_drop_bit_eq
      bit_push_bit_iff bit_masks dest: bit_imp_le_length)

lemma bits_below_32:
  fixes d :: "32 word"
  assumes "d \<le> 0x1f" "bit d n"
  shows "n < 5"
proof -
  have "d < 2 ^ 5" using assms(1) by (simp add: word_le_nat_alt word_less_nat_alt)
  then have "d AND mask 5 = d" by (rule less_mask_eq)
  then have "take_bit 5 d = d" by (simp add: take_bit_eq_mask)
  then show ?thesis using assms(2) by (metis bit_take_bit_iff)
qed

lemma exp5_field_bits:
  "bit (drop_bit 12 ((t::32 word) AND 0x1f000)) n \<longleftrightarrow> n < 5 \<and> bit t (12 + n)"
  by (auto simp add: bit_and_iff bit_drop_bit_eq bit_masks dest: bit_imp_le_length)


lemma decompress18_compress18:
  fixes x :: "32 word"
  assumes lo: "0x70 \<le> drop_bit 23 (x AND 0x7f800000)"
      and hi: "drop_bit 23 (x AND 0x7f800000) \<le> 0x8f"
      and z: "x AND 0x7ff = 0"
  shows "decompress18 (compress18 x) = x"
proof -
  define e where "e = drop_bit 23 (x AND 0x7f800000)"
  define d where "d = e - 0x70"
  have "unat e - 0x70 \<le> 0x1f" "unat (0x70 :: 32 word) \<le> unat e"
    using lo hi unfolding e_def [symmetric] word_le_nat_alt by simp_all
  then have d: "d \<le> 0x1f" unfolding d_def word_le_nat_alt by (simp add: unat_sub_if_size)
  have e: "d + 0x70 = e" by (simp add: d_def)
  have bd: "\<And>n. bit d n \<Longrightarrow> n < 5" using d by (rule bits_below_32)
  have bt: "\<And>n. bit (compress18 x) n \<longleftrightarrow>
      n < 32 \<and> (n < 12 \<and> bit x (11 + n) \<or> 12 \<le> n \<and> bit d (n - 12) \<or> n = 17 \<and> bit x 31)"
    unfolding bit_compress18 d_def e_def ..
  have "drop_bit 12 (compress18 x AND 0x1f000) = d"
    by (rule bit_word_eqI) (unfold exp5_field_bits bt, auto dest: bd)
  then have bd': "\<And>n. bit (decompress18 (compress18 x)) n \<longleftrightarrow> n < 32 \<and>
     (11 \<le> n \<and> n < 23 \<and> bit (compress18 x) (n - 11) \<or>
      23 \<le> n \<and> bit e (n - 23) \<or>
      n = 31 \<and> bit (compress18 x) 17)"
    unfolding bit_decompress18 by (simp add: e)
  have lowz: "\<And>n. bit x n \<Longrightarrow> 11 \<le> n"
  proof (rule ccontr)
    fix n assume "bit x n" "\<not> 11 \<le> n"
    then have "bit (x AND 0x7ff) n" by (simp add: bit_and_iff bit_masks)
    then show False by (simp add: z)
  qed
  show ?thesis
  proof (rule bit_word_eqI)
    fix n assume n: "n < LENGTH(32)"
    consider "n < 11" | "11 \<le> n" "n < 23" | "23 \<le> n" "n < 31" | "n = 31"
      using n by fastforce
    then show "bit (decompress18 (compress18 x)) n = bit x n"
    proof cases
      case 1
      then show ?thesis using lowz [of n] by (auto simp add: bd')
    next
      case 2
      then have "11 + (n - 11) = n" "n - 11 < 12" by simp_all
      then show ?thesis using 2 by (simp add: bd' bt)
    next
      case 3
      then have "23 + (n - 23) = n" "n - 23 < 8" by simp_all
      then have "bit e (n - 23) = bit x n" unfolding e_def exp_field_bits by simp
      then show ?thesis using 3 by (simp add: bd')
    next
      case 4
      have "\<not> bit d 5" using bd [of 5] by auto
      moreover have "\<not> bit e 8" unfolding e_def exp_field_bits by simp
      ultimately show ?thesis using 4 by (simp add: bd' bt)
    qed
  qed
qed


text \<open>
  C7. A float whose biased exponent field lies in the window of the 5-bit exponent of
  the 18-bit format, \<open>0x70 \<le> e \<le> 0x8F\<close> (the codes \<open>e - 0x70\<close> from 0 to 31), and
  whose bottom 11 significand bits are zero, is reproduced bit for bit by
  \<open>decompress18 (compress18 x)\<close>.
\<close>

theorem microfloat_roundtrip_in_window:
  assumes "0x70 \<le> f32_exp x" "f32_exp x \<le> 0x8F" "x AND 0x7FF = 0"
  shows "decompress18 (compress18 x) = x"
proof (rule decompress18_compress18)
  show "0x70 \<le> drop_bit 23 (x AND 0x7f800000)" "drop_bit 23 (x AND 0x7f800000) \<le> 0x8f"
    using assms(1,2) unfolding word_le_nat_alt unat_exp_field by simp_all
  show "x AND 0x7FF = 0" by fact
qed

theorem microfloat_roundtrip_in_window_witness:
  "0x70 \<le> f32_exp 0xC4353800 \<and> f32_exp 0xC4353800 \<le> 0x8F \<and> (0xC4353800 :: f32) AND 0x7FF = 0
   \<and> decompress18 (compress18 0xC4353800) = 0xC4353800"
  using microfloat_roundtrip_in_window [of "0xC4353800"] by (simp add: f32_exp_def)

text \<open>
  C8. The claim is that every result of \<open>compress18\<close> has only its low 18 bits set, as
  the layout comment of the source (sign 1, exponent 5, significand 12) says. The rebiased
  exponent is shifted into place without being masked to 5 bits: for \<open>0.0f\<close>, whose
  exponent field is 0, the difference \<open>0 - 0x70\<close> wraps to \<open>0xFFFFFF90\<close> and the result
  is \<open>0xFFF90000\<close>, with bits 19 to 31 set.
\<close>

theorem compress18_zero_exceeds_18_bits:
  "compress18 0 = 0xFFF90000 \<and> drop_bit 18 (compress18 0) \<noteq> 0"
  by (simp add: compress18_def)

section \<open>Branch-free selection\<close>

lemma cmask_simps: "cmask True = - 1" "cmask False = 0"
  by (simp_all add: cmask_def)

lemma blend_eq: "blend c a v = (if c then a else v)"
  by (cases c) (simp_all add: blend_def cmask_simps xor.left_commute)

section \<open>Sign and magnitude of a word\<close>

lemma bit_0x7fffffff: "bit (0x7fffffff::int) n \<longleftrightarrow> n < 31"
  using bit_shifted_mask [of 0 31 n] by (simp add: mask_eq_exp_minus_1)

lemma bit_0x7fff: "bit (0x7fff::int) n \<longleftrightarrow> n < 15"
  using bit_shifted_mask [of 0 15 n] by (simp add: mask_eq_exp_minus_1)

lemma bit_0x8000: "bit (0x8000::int) n \<longleftrightarrow> n = 15"
  using bit_shifted_mask [of 15 1 n] by (auto simp add: mask_eq_exp_minus_1)

lemma and_sign32: "(x :: 32 word) AND 0x80000000 = (if bit x 31 then 0x80000000 else 0)"
  by (rule bit_word_eqI) (auto simp add: bit_and_iff bit_masks)

lemma xor_and_sign32: "(x :: 32 word) XOR (x AND 0x80000000) = x AND 0x7FFFFFFF"
  by (rule bit_word_eqI) (auto simp add: bit_and_iff bit_xor_iff bit_masks bit_0x7fffffff)

lemma strip_sign32: "(x :: 32 word) XOR (x AND n_sign) = f32_abs x"
  unfolding n_sign_def f32_abs_def by (rule xor_and_sign32)

lemma sign16_of_sign32:
  "drop_bit shift_sign ((x :: 32 word) AND n_sign) = (if f32_sign x then 0x8000 else 0)"
  unfolding n_sign_def f32_sign_def shift_sign_def and_sign32 by simp

lemma compress_split:
  "Float16Compressor_compress ub x =
     ucast (compress_mag ub (f32_abs x) OR (if f32_sign x then 0x8000 else 0))"
  unfolding Float16Compressor_compress_def compress_mag_def Let_def
    strip_sign32 sign16_of_sign32 ..

lemma bit_0xffff8000: "bit (0xFFFF8000::int) n \<longleftrightarrow> 15 \<le> n \<and> n < 32"
  using bit_shifted_mask [of 15 17 n] by (simp add: mask_eq_exp_minus_1)

lemma c_sign_eq: "c_sign = 0xFFFF8000"
  by (simp add: c_sign_def shift_sign_def n_sign_def)

lemma bit16_lt: "bit (h :: 16 word) n \<Longrightarrow> n < 16"
  by (auto dest: bit_imp_le_length)

lemma bit16_top: "bit (h :: 16 word) n \<Longrightarrow> 15 \<le> n \<Longrightarrow> bit h 15"
proof -
  assume b: "bit h n" and n: "15 \<le> n"
  from b have "n < 16" by (auto dest: bit_imp_le_length)
  with n have "n = 15" by simp
  with b show ?thesis by simp
qed

lemma bit16_low: "bit (h :: 16 word) n \<Longrightarrow> \<not> bit h 15 \<Longrightarrow> n < 15"
  using bit16_top [of h n] by fastforce

lemma and_sign16:
  "(ucast (h :: 16 word) :: 32 word) AND c_sign = (if bit h 15 then 0x8000 else 0)"
  unfolding c_sign_eq
  by (rule bit_word_eqI)
    (auto simp add: bit_and_iff bit_ucast_iff bit_0xffff8000 bit_0x8000 dest: bit16_top bit16_lt)

lemma strip_sign16:
  "(ucast (h :: 16 word) :: 32 word) XOR (if bit h 15 then 0x8000 else 0) = ucast (h AND 0x7FFF)"
  by (rule bit_word_eqI)
    (auto simp add: bit_and_iff bit_xor_iff bit_ucast_iff bit_0x7fff bit_0x8000
      dest: bit16_low bit16_lt)

lemma decompress_split:
  "Float16Compressor_decompress h =
     decompress_mag (ucast (h AND 0x7FFF)) OR (if bit h 15 then 0x80000000 else 0)"
proof -
  have "push_bit shift_sign (if bit h 15 then (0x8000 :: 32 word) else 0) = (if bit h 15 then 0x80000000 else 0)"
    by (simp add: shift_sign_def)
  then show ?thesis   
  unfolding Float16Compressor_decompress_def decompress_mag_def Let_def
    and_sign16 strip_sign16 by (simp only:)
qed

section \<open>Words as integers\<close>

lemma wrap_int32:
  fixes u :: int
  assumes "0 \<le> u" "u < 4294967296"
  shows "(u + 2147483648) mod 4294967296 - 2147483648 =
         (if u < 2147483648 then u else u - 4294967296)"
proof (cases "u < 2147483648")
  case True
  then have "(u + 2147483648) mod 4294967296 = u + 2147483648"
    using assms by (intro mod_pos_pos_trivial) simp_all
  then show ?thesis using True by simp
next
  case False
  have "(u + 2147483648) mod 4294967296 = (u + 2147483648 - 4294967296) mod 4294967296"
    by (simp only: minus_mod_self2)
  also have "\<dots> = u + 2147483648 - 4294967296"
    using assms False by (intro mod_pos_pos_trivial) simp_all
  finally show ?thesis using False by simp
qed

lemma uint32_bounds: "0 \<le> uint (w :: 32 word)" "uint w < 4294967296"
  using uint_bounded [of w] by simp_all

lemma sint32:
  "sint (w :: 32 word) = (if uint w < 2147483648 then uint w else uint w - 4294967296)"
proof -
  have "sint w = (uint w + 2147483648) mod 4294967296 - 2147483648"
    by (simp add: sint_uint signed_take_bit_eq_take_bit_shift take_bit_eq_mod)
  then show ?thesis
    unfolding wrap_int32 [OF uint32_bounds] .
qed

lemma sint_small: "uint (a :: 32 word) < 2147483648 \<Longrightarrow> sint a = uint a"
  by (simp only: sint32 if_True)

lemma sless_uint:
  "uint (a :: 32 word) < 2147483648 \<Longrightarrow> uint b < 2147483648 \<Longrightarrow> (a <s b) = (uint a < uint b)"
  by (simp only: word_sless_alt sint_small)

lemma uint_drop_bit: "uint (drop_bit n (a :: 32 word)) = uint a div 2 ^ n"
proof -
  have "take_bit 32 (uint a) = uint a"
    using uint32_bounds [of a] by (simp add: take_bit_eq_mod)
  then show ?thesis
    by (subst unsigned_drop_bit_eq) (simp add: drop_bit_eq_div)
qed

lemma uint_add_small:
  "uint a + uint b < 4294967296 \<Longrightarrow> uint (a + b :: 32 word) = uint a + uint b"
  by (rule uint_add_lem [THEN iffD1]) simp

lemma uint_sub_small:
  "uint b \<le> uint a \<Longrightarrow> uint (a - b :: 32 word) = uint a - uint b"
  by (rule uint_sub_lem [THEN iffD1])

lemma uint_push_bit_small:
  assumes "uint a * 2 ^ n < 4294967296"
  shows "uint (push_bit n (a :: 32 word)) = uint a * 2 ^ n"
proof -
  have "0 \<le> uint a * 2 ^ n" by simp
  then have "take_bit 32 (uint a * 2 ^ n) = uint a * 2 ^ n"
    using assms by (simp add: take_bit_eq_mod)
  then show ?thesis
    by (subst unsigned_push_bit_eq) (simp add: push_bit_eq_mult)
qed

lemma uint_word_of_int_small:
  "0 \<le> k \<Longrightarrow> k < 4294967296 \<Longrightarrow> uint (word_of_int k :: 32 word) = k"
  by (simp add: uint_word_of_int take_bit_eq_mod)

lemma int_div_lower: "k * d \<le> a \<Longrightarrow> 0 < d \<Longrightarrow> k \<le> a div (d::int)"
  using zdiv_mono1 [of "k * d" a d] by simp

lemma int_div_upper: "a < k * d \<Longrightarrow> 0 < d \<Longrightarrow> a div d < (k::int)"
proof (rule ccontr)
  assume a: "a < k * d" "0 < d" and "\<not> a div d < k"
  then have "k * d \<le> (a div d) * d" by simp
  also have "\<dots> \<le> a"
    using a(2) by (metis mult.commute mult_div_mod_eq pos_mod_sign le_add_same_cancel1)
  finally show False using a(1) by simp
qed

lemma int_divmod_fields:
  fixes e m d :: int
  assumes "0 \<le> m" "m < d"
  shows "(e * d + m) div d = e" "(e * d + m) mod d = m"
  using assms by (simp_all add: div_pos_pos_trivial mod_pos_pos_trivial)

section \<open>The fields of a float, as integers\<close>

lemma f32_abs_take_bit: "f32_abs x = take_bit 31 x"
  unfolding f32_abs_def
  by (rule bit_word_eqI) (auto simp add: bit_and_iff bit_take_bit_iff bit_0x7fffffff)

lemma f32_frac_take_bit: "f32_frac x = take_bit 23 (unat x)"
  by (simp add: f32_frac_def take_bit_eq_mod)

lemma f32_exp_take_bit: "f32_exp x = take_bit 8 (drop_bit 23 (unat x))"
  by (simp add: f32_exp_def take_bit_eq_mod unat_drop_bit_eq)

lemma f32_frac_abs [simp]: "f32_frac (f32_abs x) = f32_frac x"
  by (simp add: f32_frac_take_bit f32_abs_take_bit unsigned_take_bit_eq)

lemma f32_exp_abs [simp]: "f32_exp (f32_abs x) = f32_exp x"
  by (simp add: f32_exp_take_bit f32_abs_take_bit unsigned_take_bit_eq drop_bit_take_bit)

lemma f32_mag_abs [simp]: "f32_mag (f32_abs x) = f32_mag x"
  by (simp add: f32_mag_def)

lemma is_nan_abs [simp]: "is_nan (f32_abs x) = is_nan x"
  by (simp add: is_nan_def)

lemma is_finite_abs [simp]: "is_finite (f32_abs x) = is_finite x"
  by (simp add: is_finite_def)

lemma f32_sign_abs [simp]: "\<not> f32_sign (f32_abs x)"
  by (simp add: f32_sign_def f32_abs_take_bit bit_take_bit_iff)

lemma uint_f32_abs_lt: "uint (f32_abs x) < 2147483648"
proof -
  have "uint (f32_abs x) = uint x mod 2 ^ 31"
    unfolding f32_abs_take_bit by (subst unsigned_take_bit_eq) (simp add: take_bit_eq_mod)
  then show ?thesis by simp
qed

lemma f32_sign_uint: "f32_sign x \<longleftrightarrow> 2147483648 \<le> uint x"
proof -
  have "f32_sign x \<longleftrightarrow> sint x < 0"
    unfolding f32_sign_def using bit_last_iff [of x] by simp
  then show ?thesis using uint32_bounds [of x] by (simp add: sint32)
qed

lemma f32_abs_id: "uint a < 2147483648 \<Longrightarrow> f32_abs a = a"
proof -
  assume "uint a < 2147483648"
  then have "uint a < 2 ^ 31" by simp
  then have "a < 2 ^ 31" by (simp add: word_less_def)
  then have "a AND mask 31 = a" by (rule less_mask_eq)
  then show ?thesis by (simp add: f32_abs_take_bit take_bit_eq_mask)
qed

lemma f32_exp_int: "uint a < 2147483648 \<Longrightarrow> int (f32_exp a) = uint a div 8388608"
proof -
  assume a: "uint a < 2147483648"
  have "uint (drop_bit 23 a) < 256"
    unfolding uint_drop_bit using a by (auto intro!: int_div_upper)
  moreover have "int (f32_exp a) = uint (drop_bit 23 a) mod 256"
    by (simp add: f32_exp_def zmod_int)
  ultimately show ?thesis
    using uint32_bounds [of "drop_bit 23 a"] by (simp add: uint_drop_bit)
qed

lemma f32_frac_int: "int (f32_frac a) = uint a mod 8388608"
  by (simp add: f32_frac_def zmod_int)

lemma f32_frac_lt: "f32_frac a < 8388608"
  by (simp add: f32_frac_def)

text \<open>A word read as exponent times \<open>2\<^sup>2\<^sup>3\<close> plus fraction.\<close>

lemma f32_fields:
  fixes e m :: nat
  assumes "uint w = int e * 8388608 + int m" "m < 8388608" "e < 256"
  shows "f32_exp w = e" "f32_frac w = m"
proof -
  have lt: "uint w < 2147483648" using assms by simp
  have "int (f32_exp w) = int e"
    unfolding f32_exp_int [OF lt] assms(1) using assms(2)
    by (intro int_divmod_fields) simp_all
  then show "f32_exp w = e" by simp
  have "int (f32_frac w) = int m"
    unfolding f32_frac_int assms(1) using assms(2)
    by (intro int_divmod_fields) simp_all
  then show "f32_frac w = m" by simp
qed

lemma uint_fields:
  "uint a < 2147483648 \<Longrightarrow> uint a = int (f32_exp a) * 8388608 + int (f32_frac a)"
  by (simp add: f32_exp_int f32_frac_int)

section \<open>The order of magnitudes is the order of the bit patterns\<close>

lemma mag_fields_less:
  fixes e e' m m' :: nat
  assumes m: "m < 8388608" and m': "m' < 8388608"
    and lex: "e < e' \<or> (e = e' \<and> m < m')"
  shows "(if e = 0 then int m else (8388608 + int m) * 2 ^ (e - 1))
       < (if e' = 0 then int m' else (8388608 + int m') * 2 ^ (e' - 1))"
proof -
  from lex show ?thesis
  proof
    assume "e = e' \<and> m < m'"
    then show ?thesis by simp
  next
    assume less: "e < e'"
    then have e': "e' \<noteq> 0" by simp
    have "(if e = 0 then int m else (8388608 + int m) * 2 ^ (e - 1)) < 8388608 * 2 ^ e"
    proof (cases "e = 0")
      case True
      then show ?thesis using m by simp
    next
      case False
      then obtain k where k: "e = Suc k" by (cases e) simp_all
      have "(8388608 + int m) * 2 ^ k < (8388608 + 8388608) * 2 ^ k"
        using m by (intro mult_strict_right_mono) simp_all
      then show ?thesis using k by simp
    qed
    also have "(8388608 :: int) * 2 ^ e \<le> 8388608 * 2 ^ (e' - 1)"
      using less by (intro mult_left_mono power_increasing) simp_all
    also have "\<dots> \<le> (8388608 + int m') * 2 ^ (e' - 1)"
      by (intro mult_right_mono) simp_all
    finally show ?thesis using e' by simp
  qed
qed

lemma f32_mag_alt:
  "f32_mag x = (if f32_exp x = 0 then int (f32_frac x)
                else (8388608 + int (f32_frac x)) * 2 ^ (f32_exp x - 1))"
  by (simp add: f32_mag_def)

lemma f32_mag_mono:
  assumes a: "uint a < 2147483648" and b: "uint b < 2147483648" and less: "uint a < uint b"
  shows "f32_mag a < f32_mag b"
proof -
  have "int (f32_exp a) * 8388608 + int (f32_frac a) < int (f32_exp b) * 8388608 + int (f32_frac b)"
    using less uint_fields [OF a] uint_fields [OF b] by simp
  then have "f32_exp a * 8388608 + f32_frac a < f32_exp b * 8388608 + f32_frac b"
    by (metis of_nat_add of_nat_less_iff of_nat_mult of_nat_numeral)
  then have "f32_exp a < f32_exp b \<or> (f32_exp a = f32_exp b \<and> f32_frac a < f32_frac b)"
    using f32_frac_lt [of a] f32_frac_lt [of b]
    by (cases "f32_exp a < f32_exp b") (auto simp add: not_less dest!: le_Suc_ex)
  then show ?thesis
    unfolding f32_mag_alt
    using f32_frac_lt [of a] f32_frac_lt [of b]
    by (intro mag_fields_less)
qed

lemma f32_mag_less_iff:
  assumes a: "uint a < 2147483648" and b: "uint b < 2147483648"
  shows "f32_mag a < f32_mag b \<longleftrightarrow> uint a < uint b"
proof
  assume "uint a < uint b" then show "f32_mag a < f32_mag b" by (rule f32_mag_mono [OF a b])
next
  assume l: "f32_mag a < f32_mag b"
  show "uint a < uint b"
  proof (rule ccontr)
    assume "\<not> uint a < uint b"
    then consider "uint b < uint a" | "uint a = uint b" by fastforce
    then show False
    proof cases
      case 1 then show False using f32_mag_mono [OF b a] l by simp
    next
      case 2 then have "a = b" by (simp add: word_uint_eq_iff)
      then show False using l by simp
    qed
  qed
qed

lemma f32_mag_le_iff:
  assumes a: "uint a < 2147483648" and b: "uint b < 2147483648"
  shows "f32_mag a \<le> f32_mag b \<longleftrightarrow> uint a \<le> uint b"
  using f32_mag_less_iff [OF b a] by (simp add: not_less [symmetric])

lemma f32_mag_nonneg: "0 \<le> f32_mag x"
  by (simp add: f32_mag_def)

section \<open>Float16Compressor: constants\<close>

lemma f16_consts:
  "c_inf = 0x3FC00" "n_nan = 0x7F802000" "c_max16 = 0x23BFF" "c_min = 0x1C400"
  "d_max = 0x1C000" "d_min = 0x1C000"
  by (simp_all add: c_inf_def n_nan_def c_max16_def c_min_def d_max_def d_min_def
      shift16_def n_inf_def n_max_def n_min_def c_sub_def)

lemmas f16_defs = f16_consts n_inf_def n_max_def n_min_def c_sub_def c_nor_def shift16_def

lemma n_mul_val: "is_finite n_mul" "f32_val n_mul = 2 ^ 186"
  by (simp_all add: is_finite_def f32_val_def f32_mag_def f32_exp_def f32_frac_def f32_sign_def
      n_mul_def)

lemma c_mul_val: "\<not> f32_sign c_mul" "f32_mag c_mul = 2 ^ 125"
  by (simp_all add: f32_mag_def f32_exp_def f32_frac_def f32_sign_def c_mul_def)

lemma n_min_mag: "f32_mag 0x38800000 = 2 ^ 135"
  by (simp add: f32_mag_def f32_exp_def f32_frac_def)

lemma n_max_mag: "f32_mag 0x477FE000 = 65504 * 2 ^ 149"
  by (simp add: f32_mag_def f32_exp_def f32_frac_def)

lemma is_finite_uint:
  assumes "uint a < 2147483648"
  shows "is_finite a \<longleftrightarrow> uint a < 0x7F800000"
proof -
  have "int (f32_exp a) < 255 \<longleftrightarrow> uint a < 255 * 8388608"
    unfolding f32_exp_int [OF assms]
    using int_div_upper [of "uint a" 255 8388608] int_div_lower [of 255 8388608 "uint a"]
    by fastforce
  then show ?thesis by (simp add: is_finite_def)
qed

lemma is_nan_uint:
  assumes "uint a < 2147483648"
  shows "is_nan a \<longleftrightarrow> 0x7F800000 < uint a"
proof -
  have e: "int (f32_exp a) \<le> 255"
    unfolding f32_exp_int [OF assms] using assms
    by (simp add: int_div_upper [of "uint a" 256 8388608, simplified] flip: zle_add1_eq_le)
  show ?thesis
  proof (cases "is_finite a")
    case True
    then show ?thesis using is_finite_uint [OF assms] by (simp add: is_nan_def is_finite_def)
  next
    case False
    then have "f32_exp a = 255" using e by (simp add: is_finite_def)
    then have "uint a = 255 * 8388608 + int (f32_frac a)"
      using uint_fields [OF assms] by simp
    then show ?thesis using \<open>f32_exp a = 255\<close> by (simp add: is_nan_def)
  qed
qed

section \<open>Float16Compressor: what compress does on each range of magnitudes\<close>

lemma f32_mul_to_i32_eq:
  assumes "is_finite s" "is_finite v"
    and "sgn (f32_val s * f32_val v) * (\<bar>f32_val s * f32_val v\<bar> div 2 ^ 298) = t"
    and "- (2 ^ 31) \<le> t" "t < 2 ^ 31"
  shows "f32_mul_to_i32 ub s v = word_of_int t"
  unfolding f32_mul_to_i32_def Let_def assms(3) using assms(1,2,4,5) by simp

lemma mul_n_mul_small:
  assumes a: "uint a < 0x38800000"
  shows "uint (f32_mul_to_i32 ub n_mul a) = f32_mag a div 2 ^ 112"
    and "f32_mag a div 2 ^ 112 < 8388608"
proof -
  have lt: "uint a < 2147483648" using a by simp
  have fin: "is_finite a" using a by (simp add: is_finite_uint [OF lt])
  have "\<not> f32_sign a" using a by (simp add: f32_sign_uint)
  then have val: "f32_val a = f32_mag a" by (simp add: f32_val_def)
  have "f32_mag a < f32_mag 0x38800000"
    using a lt by (intro f32_mag_mono) simp_all
  then have m: "f32_mag a < 2 ^ 135" by (simp only: n_min_mag)
  have m0: "0 \<le> f32_mag a" by (rule f32_mag_nonneg)
  define t where "t = f32_mag a div 2 ^ 112"
  have t0: "0 \<le> t" using m0 by (simp add: t_def)
  have "f32_mag a < 8388608 * 2 ^ 112" using m by simp
  then show t1: "f32_mag a div 2 ^ 112 < 8388608"
    by (intro int_div_upper) simp_all
  have "(2 ^ 186 * f32_mag a) div (2 ^ 186 * 2 ^ 112) = f32_mag a div 2 ^ 112"
    by (rule div_mult_mult1) simp
  then have d: "(2 ^ 186 * f32_mag a) div 2 ^ 298 = t" by (simp add: t_def)
  have sg: "sgn (2 ^ 186 * f32_mag a) * (\<bar>2 ^ 186 * f32_mag a\<bar> div 2 ^ 298) = t"
  proof (cases "f32_mag a = 0")
    case True then show ?thesis by (simp add: t_def)
  next
    case False
    then have "0 < f32_mag a" using m0 by simp
    then have "sgn (2 ^ 186 * f32_mag a) = 1" "\<bar>2 ^ 186 * f32_mag a\<bar> = 2 ^ 186 * f32_mag a"
      by (simp_all add: sgn_mult)
    then show ?thesis using d by simp
  qed
  have "f32_mul_to_i32 ub n_mul a = word_of_int t"
  proof (rule f32_mul_to_i32_eq)
    show "is_finite n_mul" by (rule n_mul_val)
    show "is_finite a" by (rule fin)
    show "sgn (f32_val n_mul * f32_val a) * (\<bar>f32_val n_mul * f32_val a\<bar> div 2 ^ 298) = t"
      unfolding n_mul_val(2) val by (rule sg)
    show "- (2 ^ 31) \<le> t" using t0 by simp
    show "t < 2 ^ 31" using t1 by (simp add: t_def)
  qed
  then show "uint (f32_mul_to_i32 ub n_mul a) = f32_mag a div 2 ^ 112"
    using t0 t1 by (simp add: uint_word_of_int_small t_def)
qed

lemma compress_mag_subnormal:
  assumes a: "uint a < 0x38800000"
  shows "uint (compress_mag ub a) = f32_mag a div 2 ^ 125"
proof -
  define s where "s = f32_mul_to_i32 ub n_mul a"
  define q where "q = drop_bit 13 s"
  have us: "uint s = f32_mag a div 2 ^ 112" "uint s < 8388608"
    using mul_n_mul_small [OF a] by (simp_all add: s_def)
  have "uint q = (f32_mag a div 2 ^ 112) div 2 ^ 13" by (simp add: q_def uint_drop_bit us)
  also have "\<dots> = f32_mag a div (2 ^ 112 * 2 ^ 13)"
    by (rule zdiv_zmult2_eq [symmetric]) simp
  finally have uq: "uint q = f32_mag a div 2 ^ 125" by simp
  have "uint q < 1024"
    unfolding q_def uint_drop_bit using us(2) by (intro int_div_upper) simp_all
  then have 2: "\<not> c_max16 <s q" "\<not> c_sub <s q"
    by (simp_all add: f16_defs sless_uint)
  have 1: "a <s n_min" "\<not> n_max <s s" "\<not> n_inf <s s"
    using a us(2) by (simp_all add: f16_defs sless_uint)
  show ?thesis
    by (simp add: compress_mag_def Let_def blend_eq 1 2 shift16_def
        s_def [symmetric] q_def [symmetric] uq)
qed

lemma compress_mag_normal:
  assumes "0x38800000 \<le> uint a" "uint a \<le> 0x477FE000"
  shows "uint (compress_mag ub a) = uint a div 8192 - 0x1C000"
proof -
  define q where "q = drop_bit 13 a"
  have uq: "uint q = uint a div 8192" by (simp add: q_def uint_drop_bit)
  have q: "0x1C400 \<le> uint q" "uint q < 0x23C00"
    unfolding uq using assms by (auto intro!: int_div_lower int_div_upper)
  have 1: "\<not> a <s n_min" "\<not> n_max <s a" "\<not> n_inf <s a"
    using assms by (simp_all add: f16_defs sless_uint)
  have 2: "\<not> c_max16 <s q" "c_sub <s q"
    using q by (simp_all add: f16_defs sless_uint)
  have "uint (q - d_min) = uint q - 0x1C000"
    using q by (simp add: f16_defs uint_sub_small)
  then show ?thesis
    by (simp add: compress_mag_def Let_def blend_eq 1 2 shift16_def q_def [symmetric] uq)
qed

lemma compress_mag_overflow:
  assumes "0x477FE000 < uint a" "uint a \<le> 0x7F800000"
  shows "compress_mag ub a = 0x7C00"
proof -
  have 1: "\<not> a <s n_min" "n_max <s a" "a <s n_inf \<or> a = n_inf"
    using assms by (auto simp add: f16_defs sless_uint word_uint_eq_iff)
  have 2: "\<not> n_inf <s n_inf" by simp
  have 3: "drop_bit shift16 n_inf = 0x3FC00" by (simp add: f16_defs)
  have 4: "c_max16 <s 0x3FC00" "0x3FC00 - d_max = 0x23C00" "c_sub <s 0x23C00"
    "0x23C00 - d_min = 0x7C00"
    by (simp_all add: f16_defs word_sless_alt)
  from 1(3) show ?thesis
    by (auto simp add: compress_mag_def Let_def blend_eq 1(1,2) 2 3 4)
qed

lemma compress_mag_small_nan:
  assumes "0x7F800000 < uint a" "uint a < 0x7F802000"
  shows "compress_mag ub a = 0x7C01"
proof -
  have 1: "\<not> a <s n_min" "\<not> a <s n_inf" "a <s n_nan" "n_inf <s a"
    using assms by (simp_all add: f16_defs sless_uint)
  have 3: "drop_bit shift16 n_nan = 0x3FC01" by (simp add: f16_defs)
  have 4: "c_max16 <s 0x3FC01" "0x3FC01 - d_max = 0x23C01" "c_sub <s 0x23C01"
    "0x23C01 - d_min = 0x7C01"
    by (simp_all add: f16_defs word_sless_alt)
  show ?thesis
    by (simp add: compress_mag_def Let_def blend_eq 1 3 4)
qed

lemma compress_mag_nan:
  assumes "0x7F802000 \<le> uint a" "uint a < 2147483648"
  shows "uint (compress_mag ub a) = uint a div 8192 - 0x38000"
proof -
  define q where "q = drop_bit 13 a"
  have uq: "uint q = uint a div 8192" by (simp add: q_def uint_drop_bit)
  have q: "0x3FC01 \<le> uint q" "uint q < 0x40000"
    unfolding uq using assms by (auto intro!: int_div_lower int_div_upper)
  have 1: "\<not> a <s n_min" "\<not> a <s n_inf" "\<not> a <s n_nan"
    using assms by (simp_all add: f16_defs sless_uint)
  have u1: "uint (q - d_max) = uint q - 0x1C000"
    using q by (simp add: f16_defs uint_sub_small)
  have 2: "c_max16 <s q" "c_sub <s q - d_max"
    using q u1 by (simp_all add: f16_defs sless_uint)
  have "uint (q - d_max - d_min) = uint q - 0x38000"
    using q u1 by (simp add: f16_defs uint_sub_small)
  then show ?thesis
    by (simp add: compress_mag_def Let_def blend_eq 1 2 shift16_def q_def [symmetric] uq)
qed

section \<open>Exact encoding\<close>

declare bit_length.simps [simp del]

lemma bit_length_bounds:
  "0 < n \<Longrightarrow> 2 ^ (bit_length n - 1) \<le> n \<and> n < 2 ^ bit_length n"
proof (induction n rule: bit_length.induct)
  case (1 n)
  show ?case
  proof (cases "n div 2 = 0")
    case True
    with 1(2) have "n = 1" by (simp add: div_eq_0_iff)
    moreover have "bit_length (Suc 0) = Suc 0"
      by (simp add: bit_length.simps [of "Suc 0"] bit_length.simps [of 0])
    ultimately show ?thesis by simp
  next
    case False
    then have "0 < n div 2" by simp
    with 1 have ih: "2 ^ (bit_length (n div 2) - 1) \<le> n div 2" "n div 2 < 2 ^ bit_length (n div 2)"
      by simp_all
    have pos: "0 < bit_length (n div 2)"
      using False by (simp add: bit_length.simps [of "n div 2"])
    have L: "bit_length n = Suc (bit_length (n div 2))"
      using 1(2) by (simp add: bit_length.simps [of n])
    have "(2::nat) ^ bit_length (n div 2) = 2 * 2 ^ (bit_length (n div 2) - 1)"
      using pos by (cases "bit_length (n div 2)") simp_all
    then have lo: "2 ^ bit_length (n div 2) \<le> n" using ih(1) by linarith
    have hi: "n < 2 * 2 ^ bit_length (n div 2)" using ih(2) by linarith
    show ?thesis using lo hi by (simp add: L)
  qed
qed

lemma f32_encode_exact:
  fixes n :: nat
  assumes big: "2 ^ 23 \<le> n" and e: "bit_length n - 23 < 256"
    and dvd: "2 ^ (bit_length n - 24) dvd n"
  shows "f32_mag (f32_encode n) = int n" "uint (f32_encode n) < 2147483648"
proof -
  define L where "L = bit_length n"
  have n0: "0 < n" using big by (simp add: less_le_trans [of 0 "2 ^ 23"])
  have b: "2 ^ (L - 1) \<le> n" "n < 2 ^ L"
    using bit_length_bounds [OF n0] by (simp_all add: L_def)
  have "(2::nat) ^ 23 < 2 ^ L" using big b(2) by linarith
  have L24: "24 \<le> L"
  proof (rule ccontr)
    assume "\<not> 24 \<le> L"
    then have "L \<le> 23" by simp
    then have "(2::nat) ^ L \<le> 2 ^ 23" by (intro power_increasing) simp_all
    with \<open>(2::nat) ^ 23 < 2 ^ L\<close> show False by simp
  qed
  define k where "k = L - 24"
  have Lk: "L = k + 24" using L24 by (simp add: k_def)
  define q where "q = n div 2 ^ k"
  have nq: "n = q * 2 ^ k" using dvd by (simp add: q_def k_def L_def)
  have "2 ^ 23 * 2 ^ k \<le> q * (2::nat) ^ k" using b(1) nq by (simp add: Lk power_add mult.commute)
  then have q_lo: "2 ^ 23 \<le> q" by simp
  have "q * (2::nat) ^ k < 2 ^ 24 * 2 ^ k" using b(2) nq by (simp add: Lk power_add mult.commute)
  then have q_hi: "q < 2 ^ 24" by simp
  define ex where "ex = L - 23"
  have ex: "ex = Suc k" "ex < 256" using e L24 by (simp_all add: ex_def k_def L_def)
  define w :: "32 word" where "w = of_nat (ex * 2 ^ 23 + (q - 2 ^ 23))"
  have enc: "f32_encode n = w"
    using big by (simp add: f32_encode_def Let_def w_def ex_def q_def k_def L_def not_less [symmetric])
  have lt: "ex * 2 ^ 23 + (q - 2 ^ 23) < 2 ^ 31" using ex(2) q_hi by simp
  then have un: "unat w = ex * 2 ^ 23 + (q - 2 ^ 23)"
    by (intro of_nat_inverse [OF w_def [symmetric]]) simp
  have "uint w = int (unat w)" by (rule uint_nat)
  also have "\<dots> = int ex * 8388608 + int (q - 2 ^ 23)" unfolding un by simp
  finally have uw: "uint w = int ex * 8388608 + int (q - 2 ^ 23)" .
  have qf: "q - 2 ^ 23 < 8388608" using q_hi by simp
  have f: "f32_exp w = ex" "f32_frac w = q - 2 ^ 23"
    by (rule f32_fields [OF uw qf ex(2)])+
  show "uint (f32_encode n) < 2147483648" unfolding enc uw using ex(2) q_hi by simp
  have "f32_mag w = (8388608 + int (q - 2 ^ 23)) * 2 ^ k"
    using ex(1) by (simp add: f32_mag_alt f)
  also have "8388608 + int (q - 2 ^ 23) = int q" using q_lo by simp
  also have "int q * 2 ^ k = int n" by (simp add: nq)
  finally show "f32_mag (f32_encode n) = int n" by (simp add: enc)
qed

lemma f32_encode_0: "f32_encode 0 = 0"
  by (simp add: f32_encode_def)

section \<open>Float16Compressor: what decompress does on each range of codes\<close>

lemma encode_half_subnormal:
  fixes M :: int
  assumes "0 \<le> M" "M < 1024"
  shows "f32_mag (f32_encode (nat (2 ^ 125 * M))) = 2 ^ 125 * M"
    and "uint (f32_encode (nat (2 ^ 125 * M))) < 0x38800000"
proof -
  define n where "n = nat (2 ^ 125 * M)"
  have n: "int n = 2 ^ 125 * M" using assms(1) by (simp add: n_def)
  have both: "f32_mag (f32_encode n) = int n \<and> uint (f32_encode n) < 2147483648"
  proof (cases "M = 0")
    case True
    then have "n = 0" by (simp add: n_def)
    then show ?thesis by (simp add: f32_encode_0 f32_mag_def f32_exp_def f32_frac_def)
  next
    case False
    then have M1: "1 \<le> M" using assms(1) by simp
    have "(2::int) ^ 125 * 1 \<le> 2 ^ 125 * M" using M1 by (intro mult_left_mono) simp_all
    then have lo: "2 ^ 125 \<le> n" using n by (simp flip: of_nat_le_iff [where ?'a = int])
    have "(2::int) ^ 125 * M < 2 ^ 125 * 1024" using assms(2) by (intro mult_strict_left_mono) simp_all
    then have hi: "n < 2 ^ 135" using n by (simp flip: of_nat_less_iff [where ?'a = int])
    have n0: "0 < n" using lo by (simp add: less_le_trans [of 0 "2 ^ 125"])
    define L where "L = bit_length n"
    have b: "2 ^ (L - 1) \<le> n" using bit_length_bounds [OF n0] by (simp add: L_def)
    have L135: "L \<le> 135"
    proof (rule ccontr)
      assume "\<not> L \<le> 135"
      then have "135 \<le> L - 1" by simp
      then have "(2::nat) ^ 135 \<le> 2 ^ (L - 1)" by (intro power_increasing) simp_all
      with b hi show False by simp
    qed
    have big: "2 ^ 23 \<le> n"
      using lo by (rule order_trans [rotated]) simp
    have e: "bit_length n - 23 < 256" using L135 by (simp add: L_def)
    have "(2::nat) ^ (L - 24) dvd 2 ^ 125" using L135 by (intro le_imp_power_dvd) simp
    moreover have "(2::nat) ^ 125 dvd n"
    proof -
      have "n = 2 ^ 125 * nat M" using assms(1) by (simp add: n_def nat_mult_distrib)
      then show ?thesis by simp
    qed
    ultimately have dvd: "2 ^ (bit_length n - 24) dvd n"
      unfolding L_def by (rule dvd_trans)
    show ?thesis using f32_encode_exact [OF big e dvd] by simp
  qed
  then show "f32_mag (f32_encode (nat (2 ^ 125 * M))) = 2 ^ 125 * M"
    unfolding n_def [symmetric] n by simp
  have "f32_mag (f32_encode n) < f32_mag 0x38800000"
    unfolding n_min_mag using both n assms(2) by simp
  then have "uint (f32_encode n) < uint (0x38800000 :: 32 word)"
    using both by (subst (asm) f32_mag_less_iff) simp_all
  then show "uint (f32_encode (nat (2 ^ 125 * M))) < 0x38800000"
    unfolding n_def [symmetric] by simp
qed

lemma xor_xor_cancel: "(v :: 32 word) XOR (s XOR v) = s"
  by (rule bit_word_eqI) (auto simp add: bit_xor_iff)

lemma decompress_mag_subnormal:
  assumes "uint m < 0x400"
  shows "decompress_mag m = f32_encode (nat (2 ^ 125 * uint m))"
proof -
  have 1: "\<not> c_sub <s m" "\<not> c_max16 <s m" "m <s c_nor"
    using assms by (simp_all add: f16_defs sless_uint)
  have "sint m = uint m" using assms by (intro sint_small) simp
  then have "f32_mul_int c_mul (sint m) = f32_encode (nat (2 ^ 125 * uint m))"
    by (simp add: f32_mul_int_def Let_def c_mul_val)
  then show ?thesis
    by (simp add: decompress_mag_def Let_def blend_eq 1 cmask_simps xor_xor_cancel)
qed

lemma decompress_mag_normal:
  assumes "0x400 \<le> uint m" "uint m < 0x7C00"
  shows "uint (decompress_mag m) = (uint m + 0x1C000) * 8192"
proof -
  have u: "uint (m + d_min) = uint m + 0x1C000"
    using assms by (simp add: f16_defs uint_add_small)
  have 1: "c_sub <s m" "\<not> c_max16 <s m + d_min" "\<not> m + d_min <s c_nor"
    using assms u by (simp_all add: f16_defs sless_uint)
  have "uint (push_bit 13 (m + d_min)) = uint (m + d_min) * 2 ^ 13"
    using assms u by (intro uint_push_bit_small) simp
  then show ?thesis
    by (simp add: decompress_mag_def Let_def blend_eq 1 cmask_simps shift16_def u)
qed

lemma decompress_mag_special:
  assumes "0x7C00 \<le> uint m" "uint m < 0x8000"
  shows "uint (decompress_mag m) = (uint m + 0x38000) * 8192"
proof -
  have u: "uint (m + d_min) = uint m + 0x1C000"
    using assms by (simp add: f16_defs uint_add_small)
  have u2: "uint (m + d_min + d_max) = uint m + 0x38000"
    using assms u by (simp add: f16_defs uint_add_small)
  have 1: "c_sub <s m" "c_max16 <s m + d_min" "\<not> m + d_min + d_max <s c_nor"
    using assms u u2 by (simp_all add: f16_defs sless_uint)
  have "uint (push_bit 13 (m + d_min + d_max)) = uint (m + d_min + d_max) * 2 ^ 13"
    using assms u2 by (intro uint_push_bit_small) simp
  then show ?thesis
    by (simp add: decompress_mag_def Let_def blend_eq 1 cmask_simps shift16_def u2)
qed

section \<open>Putting the sign back\<close>

lemma bit_bound32:
  fixes w :: "32 word"
  assumes "uint w < 2 ^ k" "k < 32" "bit w n"
  shows "n < k"
proof -
  have "w < 2 ^ k" using assms(1,2) by (simp add: word_2p_lem word_size)
  then have "w AND mask k = w" by (rule less_mask_eq)
  then have "take_bit k w = w" by (simp add: take_bit_eq_mask)
  then show ?thesis using assms(3) by (metis bit_take_bit_iff)
qed

lemma join16_abs:
  fixes V :: "32 word"
  assumes "uint V < 0x8000"
  shows "(ucast ((ucast (V OR (if s then 0x8000 else 0)) :: 16 word) AND 0x7FFF) :: 32 word) = V"
proof -
  have b: "\<And>n. bit V n \<Longrightarrow> n < 15"
    using assms by (intro bit_bound32 [of V 15]) simp_all
  show ?thesis
    by (rule bit_word_eqI)
      (auto simp add: bit_and_iff bit_or_iff bit_ucast_iff bit_0x7fff bit_0x8000 dest: b)
qed

lemma join16_sign:
  fixes V :: "32 word"
  assumes "uint V < 0x8000"
  shows "bit (ucast (V OR (if s then 0x8000 else 0)) :: 16 word) 15 \<longleftrightarrow> s"
proof -
  have b: "\<And>n. bit V n \<Longrightarrow> n < 15"
    using assms by (intro bit_bound32 [of V 15]) simp_all
  show ?thesis
    by (auto simp add: bit_or_iff bit_ucast_iff bit_0x8000 dest: b)
qed

lemma join32_abs:
  fixes D :: "32 word"
  assumes "uint D < 2147483648"
  shows "f32_abs (D OR (if s then 0x80000000 else 0)) = D"
proof -
  have b: "\<And>n. bit D n \<Longrightarrow> n < 31"
    using assms by (intro bit_bound32 [of D 31]) simp_all
  show ?thesis
    unfolding f32_abs_def
    by (rule bit_word_eqI)
      (auto simp add: bit_and_iff bit_or_iff bit_0x7fffffff bit_0x80000000 dest: b)
qed

lemma join32_sign:
  fixes D :: "32 word"
  assumes "uint D < 2147483648"
  shows "f32_sign (D OR (if s then 0x80000000 else 0)) \<longleftrightarrow> s"
proof -
  have b: "\<And>n. bit D n \<Longrightarrow> n < 31"
    using assms by (intro bit_bound32 [of D 31]) simp_all
  show ?thesis
    unfolding f32_sign_def by (auto simp add: bit_or_iff bit_0x80000000 dest: b)
qed

lemma rejoin16:
  "ucast ((ucast ((h :: 16 word) AND 0x7FFF) :: 32 word) OR (if bit h 15 then 0x8000 else 0)) = h"
  by (rule bit_word_eqI)
    (auto simp add: bit_and_iff bit_or_iff bit_ucast_iff bit_0x7fff bit_0x8000
      dest: bit16_low bit16_lt)

lemma bit32_low: "bit (x :: 32 word) n \<Longrightarrow> \<not> bit x 31 \<Longrightarrow> n < 31"
proof -
  assume b: "bit x n" and t: "\<not> bit x 31"
  from b have "n < 32" by (auto dest: bit_imp_le_length)
  moreover have "n \<noteq> 31" using b t by auto
  ultimately show ?thesis by simp
qed

lemma rejoin32:
  "f32_abs x OR (if f32_sign x then 0x80000000 else 0) = x"
  unfolding f32_abs_def f32_sign_def
  by (rule bit_word_eqI)
    (auto simp add: bit_and_iff bit_or_iff bit_0x7fffffff bit_0x80000000 dest: bit32_low)

text \<open>The fields of a half-precision code, read off its magnitude.\<close>

lemma uint_mag16:
  "uint (ucast ((h :: 16 word) AND 0x7FFF) :: 32 word) = uint h mod 32768"
proof -
  have "h AND 0x7FFF = take_bit 15 h"
    by (rule bit_word_eqI) (auto simp add: bit_and_iff bit_take_bit_iff bit_0x7fff)
  then have "uint (h AND 0x7FFF) = uint h mod 2 ^ 15"
    by (simp only:) (subst unsigned_take_bit_eq, simp add: take_bit_eq_mod)
  moreover have "uint (ucast (h AND 0x7FFF) :: 32 word) = uint (h AND 0x7FFF)"
    using uint_bounded [of "h AND 0x7FFF"]
    by (simp add: unsigned_ucast_eq take_bit_eq_mod)
  ultimately show ?thesis by simp
qed

lemma uint_mag16_lt: "uint (ucast ((h :: 16 word) AND 0x7FFF) :: 32 word) < 0x8000"
  unfolding uint_mag16 by simp

lemma f16_fields:
  "int (f16_exp h) = uint (ucast (h AND 0x7FFF) :: 32 word) div 1024"
  "int (f16_frac h) = uint (ucast (h AND 0x7FFF) :: 32 word) mod 1024"
proof -
  have "f16_exp h = take_bit 5 (drop_bit 10 (unat h))"
    by (simp add: f16_exp_def take_bit_eq_mod unat_drop_bit_eq)
  also have "\<dots> = drop_bit 10 (take_bit 15 (unat h))"
    by (simp add: drop_bit_take_bit)
  finally have "f16_exp h = (unat h mod 32768) div 1024"
    by (simp add: drop_bit_eq_div take_bit_eq_mod)
  then show "int (f16_exp h) = uint (ucast (h AND 0x7FFF) :: 32 word) div 1024"
    unfolding uint_mag16 by (simp add: zdiv_int zmod_int)
  have "f16_frac h = (unat h mod 32768) mod 1024"
    by (simp add: f16_frac_def mod_mod_cancel)
  then show "int (f16_frac h) = uint (ucast (h AND 0x7FFF) :: 32 word) mod 1024"
    unfolding uint_mag16 by (simp add: zmod_int)
qed

section \<open>Float16Compressor: encoding what was decoded\<close>

lemma decompress_mag_lt:
  assumes "uint m < 0x8000"
  shows "uint (decompress_mag m) < 2147483648"
proof -
  consider "uint m < 0x400" | "0x400 \<le> uint m" "uint m < 0x7C00" | "0x7C00 \<le> uint m"
    by fastforce
  then show ?thesis
  proof cases
    case 1
    have "uint (f32_encode (nat (2 ^ 125 * uint m))) < 0x38800000"
      using 1 by (intro encode_half_subnormal) simp_all
    then show ?thesis using 1 by (simp add: decompress_mag_subnormal)
  next
    case 2
    then show ?thesis by (simp add: decompress_mag_normal)
  next
    case 3
    then show ?thesis using assms by (simp add: decompress_mag_special)
  qed
qed

lemma compress_mag_decompress_mag:
  assumes "uint m < 0x8000"
  shows "compress_mag ub (decompress_mag m) = m"
proof -
  consider "uint m < 0x400" | "0x400 \<le> uint m" "uint m < 0x7C00"
    | "uint m = 0x7C00" | "0x7C00 < uint m"
    by fastforce
  then have "uint (compress_mag ub (decompress_mag m)) = uint m"
  proof cases
    case 1
    define D where "D = f32_encode (nat (2 ^ 125 * uint m))"
    have D: "f32_mag D = 2 ^ 125 * uint m" "uint D < 0x38800000"
      unfolding D_def using 1 by (intro encode_half_subnormal; simp)+
    have "uint (compress_mag ub D) = (2 ^ 125 * uint m) div 2 ^ 125"
      using compress_mag_subnormal [OF D(2)] D(1) by simp
    also have "\<dots> = uint m" by simp
    finally show ?thesis using 1 by (simp add: decompress_mag_subnormal D_def)
  next
    case 2
    define D where "D = decompress_mag m"
    have D: "uint D = (uint m + 0x1C000) * 8192"
      unfolding D_def using 2 by (rule decompress_mag_normal)
    have r: "0x38800000 \<le> uint D" "uint D \<le> 0x477FE000" using 2 D by simp_all
    have "uint D div 8192 = uint m + 0x1C000" unfolding D by simp
    then show ?thesis
      using compress_mag_normal [OF r] by (simp add: D_def)
  next
    case 3
    define D where "D = decompress_mag m"
    have D: "uint D = 0x7F800000"
      unfolding D_def using decompress_mag_special [of m] 3 by simp
    have "compress_mag ub D = 0x7C00"
      using D by (intro compress_mag_overflow) simp_all
    then show ?thesis using 3 by (simp add: D_def)
  next
    case 4
    define D where "D = decompress_mag m"
    have D: "uint D = (uint m + 0x38000) * 8192"
      unfolding D_def using 4 assms by (intro decompress_mag_special) simp_all
    have r: "0x7F802000 \<le> uint D" "uint D < 2147483648" using 4 assms D by simp_all
    have "uint D div 8192 = uint m + 0x38000" unfolding D by simp
    then show ?thesis
      using compress_mag_nan [OF r] by (simp add: D_def)
  qed
  then show ?thesis by (simp add: word_uint_eq_iff)
qed

lemma compress_decompress:
  "Float16Compressor_compress ub (Float16Compressor_decompress h) = h"
proof -
  define m :: "32 word" where "m = ucast (h AND 0x7FFF)"
  have m: "uint m < 0x8000" unfolding m_def by (rule uint_mag16_lt)
  have D: "uint (decompress_mag m) < 2147483648" using m by (rule decompress_mag_lt)
  have d: "Float16Compressor_decompress h =
      decompress_mag m OR (if bit h 15 then 0x80000000 else 0)"
    unfolding m_def by (rule decompress_split)
  have "Float16Compressor_compress ub (Float16Compressor_decompress h) =
      ucast (compress_mag ub (decompress_mag m) OR (if bit h 15 then 0x8000 else 0))"
    unfolding compress_split d join32_abs [OF D] join32_sign [OF D] ..
  also have "\<dots> = ucast (m OR (if bit h 15 then 0x8000 else 0))"
    by (simp only: compress_mag_decompress_mag [OF m])
  also have "\<dots> = h" unfolding m_def by (rule rejoin16)
  finally show ?thesis .
qed

section \<open>Float16Compressor: decoding keeps the number\<close>

lemma f16_finite_uint:
  "f16_finite h \<longleftrightarrow> uint (ucast (h AND 0x7FFF) :: 32 word) < 0x7C00"
proof -
  define M where "M = uint (ucast (h AND 0x7FFF) :: 32 word)"
  have "int (f16_exp h) < 31 \<longleftrightarrow> M < 31 * 1024"
    unfolding f16_fields M_def [symmetric]
    using int_div_upper [of M 31 1024] int_div_lower [of 31 1024 M] by fastforce
  then show ?thesis by (simp add: f16_finite_def M_def)
qed

lemma decompress_mag_value:
  fixes h :: "16 word"
  defines "m \<equiv> ucast (h AND 0x7FFF) :: 32 word"
  assumes fin: "f16_finite h"
  shows "f32_mag (decompress_mag m) = f16_mag h * 2 ^ 125"
    and "uint (decompress_mag m) < 0x7F800000"
proof -
  have m: "uint m < 0x7C00" using fin by (simp add: f16_finite_uint m_def)
  have m0: "0 \<le> uint m" by simp
  define E where "E = f16_exp h"
  define F where "F = f16_frac h"
  have EF: "int E = uint m div 1024" "int F = uint m mod 1024"
    by (simp_all add: E_def F_def f16_fields m_def)
  have um: "uint m = int E * 1024 + int F" by (simp add: EF)
  have F: "F < 1024" by (simp add: F_def f16_frac_def)
  have both: "f32_mag (decompress_mag m) = f16_mag h * 2 ^ 125 \<and> uint (decompress_mag m) < 0x7F800000"
  proof (cases "uint m < 0x400")
    case True
    then have "uint m div 1024 = 0" by (intro div_pos_pos_trivial) simp_all
    then have E0: "E = 0" using EF(1) by simp
    then have "int F = uint m" using um by simp
    then have mag: "f16_mag h = uint m" using E0 by (simp add: f16_mag_def E_def F_def)
    have "f32_mag (f32_encode (nat (2 ^ 125 * uint m))) = 2 ^ 125 * uint m"
      "uint (f32_encode (nat (2 ^ 125 * uint m))) < 0x38800000"
      using True by (intro encode_half_subnormal; simp)+
    then show ?thesis using True by (simp add: decompress_mag_subnormal mag)
  next
    case False
    then have lo: "0x400 \<le> uint m" by simp
    have "1 \<le> uint m div 1024" using lo by (intro int_div_lower) simp_all
    then have E1: "1 \<le> E" using EF(1) by linarith
    have "uint m div 1024 < 31" using m by (intro int_div_upper) simp_all
    then have E31: "E < 31" using EF(1) by linarith
    define D where "D = decompress_mag m"
    have "uint D = (uint m + 0x1C000) * 8192"
      unfolding D_def using lo m by (rule decompress_mag_normal)
    also have "\<dots> = int (E + 112) * 8388608 + int (F * 8192)" by (simp add: um)
    finally have uD: "uint D = int (E + 112) * 8388608 + int (F * 8192)" .
    have f: "f32_exp D = E + 112" "f32_frac D = F * 8192"
      using F E31 by (auto intro!: f32_fields [OF uD])
    obtain k where k: "E = Suc k" using E1 by (cases E) simp_all
    have "f32_mag D = (8388608 + int F * 8192) * 2 ^ (k + 112)"
      by (simp add: f32_mag_alt f k)
    also have "\<dots> = (1024 + int F) * 2 ^ k * 2 ^ 125"
      by (simp add: power_add algebra_simps)
    also have "(1024 + int F) * 2 ^ k = f16_mag h"
      using k by (simp add: f16_mag_def E_def [symmetric] F_def [symmetric])
    finally have "f32_mag D = f16_mag h * 2 ^ 125" .
    moreover have "uint D < 0x7F800000"
      using \<open>uint D = (uint m + 0x1C000) * 8192\<close> m by simp
    ultimately show ?thesis by (simp add: D_def)
  qed
  from both show "f32_mag (decompress_mag m) = f16_mag h * 2 ^ 125" ..
  from both show "uint (decompress_mag m) < 0x7F800000" ..
qed

lemma decompress_value:
  assumes "f16_finite h"
  shows "f32_val (Float16Compressor_decompress h) = f16_val h * 2 ^ 125"
    and "is_finite (Float16Compressor_decompress h)"
proof -
  define D where "D = decompress_mag (ucast (h AND 0x7FFF))"
  have D: "f32_mag D = f16_mag h * 2 ^ 125" "uint D < 0x7F800000"
    unfolding D_def using assms by (rule decompress_mag_value)+
  have lt: "uint D < 2147483648" using D(2) by simp
  have d: "Float16Compressor_decompress h = D OR (if bit h 15 then 0x80000000 else 0)"
    unfolding D_def by (rule decompress_split)
  have "f32_mag (Float16Compressor_decompress h) = f32_mag (f32_abs (Float16Compressor_decompress h))"
    by simp
  also have "\<dots> = f32_mag D" unfolding d join32_abs [OF lt] ..
  finally have mag: "f32_mag (Float16Compressor_decompress h) = f16_mag h * 2 ^ 125"
    using D(1) by simp
  have sg: "f32_sign (Float16Compressor_decompress h) = bit h 15"
    unfolding d by (rule join32_sign [OF lt])
  show "f32_val (Float16Compressor_decompress h) = f16_val h * 2 ^ 125"
    by (simp add: f32_val_def f16_val_def mag sg)
  have "is_finite (f32_abs (Float16Compressor_decompress h))"
    unfolding d join32_abs [OF lt] using D(2) by (simp add: is_finite_uint [OF lt])
  then show "is_finite (Float16Compressor_decompress h)" by simp
qed

section \<open>Values determine bit patterns\<close>

lemma f32_mag_inj:
  assumes "f32_mag x = f32_mag y"
  shows "f32_abs x = f32_abs y"
proof -
  have "\<not> uint (f32_abs x) < uint (f32_abs y)" "\<not> uint (f32_abs y) < uint (f32_abs x)"
    using f32_mag_mono [of "f32_abs x" "f32_abs y"] f32_mag_mono [of "f32_abs y" "f32_abs x"]
      uint_f32_abs_lt [of x] uint_f32_abs_lt [of y] assms
    by auto
  then show ?thesis by (simp add: word_uint_eq_iff)
qed

lemma f32_val_inj:
  assumes "f32_val x = f32_val y" "f32_val x \<noteq> 0"
  shows "x = y"
proof -
  have nn: "0 \<le> f32_mag x" "0 \<le> f32_mag y" by (rule f32_mag_nonneg)+
  have s: "f32_sign x = f32_sign y"
    using assms nn by (cases "f32_sign x"; cases "f32_sign y") (simp_all add: f32_val_def)
  have "f32_mag x = f32_mag y"
    using assms(1) s by (cases "f32_sign y") (simp_all add: f32_val_def)
  then have a: "f32_abs x = f32_abs y" by (rule f32_mag_inj)
  have "x = f32_abs x OR (if f32_sign x then 0x80000000 else 0)" by (simp only: rejoin32)
  also have "\<dots> = f32_abs y OR (if f32_sign y then 0x80000000 else 0)" by (simp only: a s)
  also have "\<dots> = y" by (rule rejoin32)
  finally show ?thesis .
qed

lemma f32_mag_0: "f32_mag 0 = 0"
  by (simp add: f32_mag_def f32_exp_def f32_frac_def)

lemma f32_val_zero:
  assumes "f32_val x = 0"
  shows "x = (if f32_sign x then 0x80000000 else 0)"
proof -
  have "f32_mag x = f32_mag 0"
    using assms by (cases "f32_sign x") (simp_all add: f32_val_def f32_mag_0)
  then have "f32_abs x = f32_abs 0" by (rule f32_mag_inj)
  then have a: "f32_abs x = 0" by (simp add: f32_abs_def)
  have "x = f32_abs x OR (if f32_sign x then 0x80000000 else 0)" by (simp only: rejoin32)
  then show ?thesis unfolding a by simp
qed

section \<open>Float16Compressor: the claims\<close>

lemma decompress_signed_zero:
  "Float16Compressor_decompress 0 = 0" "Float16Compressor_decompress 0x8000 = 0x80000000"
proof -
  have "decompress_mag 0 = 0" by (simp add: decompress_mag_subnormal f32_encode_0)
  then show "Float16Compressor_decompress 0 = 0" "Float16Compressor_decompress 0x8000 = 0x80000000"
    by (simp_all add: decompress_split)
qed

lemma decompress_compress_exact:
  assumes x: "is_finite x" and h: "f16_finite h" and v: "f32_val x = f16_val h * 2 ^ 125"
  shows "Float16Compressor_decompress (Float16Compressor_compress ub x) = x"
proof -
  have "\<exists>h'. x = Float16Compressor_decompress h'"
  proof (cases "f32_val x = 0")
    case True
    then have "x = (if f32_sign x then 0x80000000 else 0)" by (rule f32_val_zero)
    then have "x = Float16Compressor_decompress (if f32_sign x then 0x8000 else 0)"
      by (simp add: decompress_signed_zero split: if_splits)
    then show ?thesis ..
  next
    case False
    have "f32_val x = f32_val (Float16Compressor_decompress h)"
      using decompress_value(1) [OF h] v by simp
    then have "x = Float16Compressor_decompress h" using False by (rule f32_val_inj)
    then show ?thesis ..
  qed
  then obtain h' where "x = Float16Compressor_decompress h'" ..
  then show ?thesis by (simp add: compress_decompress)
qed

lemma compress_mag_lt:
  assumes "uint a < 2147483648"
  shows "uint (compress_mag ub a) < 0x8000"
proof -
  consider "uint a < 0x38800000" | "0x38800000 \<le> uint a" "uint a \<le> 0x477FE000"
    | "0x477FE000 < uint a" "uint a \<le> 0x7F800000"
    | "0x7F800000 < uint a" "uint a < 0x7F802000" | "0x7F802000 \<le> uint a"
    by fastforce
  then show ?thesis
  proof cases
    case 1
    have "f32_mag a div 2 ^ 112 < 8388608" using 1 by (rule mul_n_mul_small)
    then have "f32_mag a < 8388608 * 2 ^ 112"
      using int_div_lower [of 8388608 "2 ^ 112" "f32_mag a"] by fastforce
    then have "f32_mag a div 2 ^ 125 < 1024" by (intro int_div_upper) simp_all
    then show ?thesis using 1 by (simp add: compress_mag_subnormal)
  next
    case 2
    have "uint a div 8192 < 0x23C00" using 2 by (intro int_div_upper) simp_all
    then show ?thesis using 2 by (simp add: compress_mag_normal)
  next
    case 3 then show ?thesis by (simp add: compress_mag_overflow)
  next
    case 4 then show ?thesis by (simp add: compress_mag_small_nan)
  next
    case 5
    have "uint a div 8192 < 0x40000" using assms by (intro int_div_upper) simp_all
    then show ?thesis using 5 assms by (simp add: compress_mag_nan)
  qed
qed

text \<open>
  C1. A finite float \<open>x\<close> with \<open>|x| < 65504\<close> that is exactly representable in half
  precision, that is, whose value is the value of some finite half-precision code \<open>h\<close>
  (\<open>f32_val\<close> counts in units of \<open>2\<^sup>-\<^sup>1\<^sup>4\<^sup>9\<close> and \<open>f16_val\<close> in units of
  \<open>2\<^sup>-\<^sup>2\<^sup>4\<close>), is reproduced bit for bit by \<open>decompress (compress x)\<close>, whatever an
  out-of-range float-to-int conversion leaves in the masked-out operand.
\<close>

theorem half_exact_roundtrip:
  assumes "is_finite x" and "f32_mag x < 65504 * 2 ^ 149"
    and "f16_finite h" and "f32_val x = f16_val h * 2 ^ 125"
  shows "Float16Compressor_decompress (Float16Compressor_compress ub x) = x"
  using assms(1,3,4) by (rule decompress_compress_exact)

theorem half_exact_roundtrip_witness:
  "is_finite 0x44800000 \<and> f32_mag 0x44800000 < 65504 * 2 ^ 149 \<and> f16_finite 0x6400
   \<and> f32_val 0x44800000 = f16_val 0x6400 * 2 ^ 125
   \<and> Float16Compressor_decompress (Float16Compressor_compress 0x80000000 0x44800000) = 0x44800000"
  using half_exact_roundtrip [of "0x44800000" "0x6400" "0x80000000"]
  by (simp add: is_finite_def f32_mag_def f32_val_def f32_sign_def f32_exp_def f32_frac_def
      f16_finite_def f16_val_def f16_mag_def f16_exp_def f16_frac_def)


lemma compress_overflow:
  assumes "\<not> is_nan x" "65504 * 2 ^ 149 < f32_mag x"
  shows "Float16Compressor_compress ub x = (if f32_sign x then 0xFC00 else 0x7C00)"
proof -
  define a where "a = f32_abs x"
  have lt: "uint a < 2147483648" unfolding a_def by (rule uint_f32_abs_lt)
  have "f32_mag 0x477FE000 < f32_mag a" using assms(2) by (simp add: n_max_mag a_def)
  then have "uint (0x477FE000 :: 32 word) < uint a"
    using lt by (subst (asm) f32_mag_less_iff) simp_all
  then have lo: "0x477FE000 < uint a" by simp
  have "\<not> is_nan a" using assms(1) by (simp add: a_def)
  then have hi: "uint a \<le> 0x7F800000" by (simp add: is_nan_uint [OF lt])
  have "compress_mag ub a = 0x7C00" using lo hi by (rule compress_mag_overflow)
  then show ?thesis by (simp add: compress_split a_def [symmetric])
qed

text \<open>
  C5, as the code has it. The comparison with \<open>n_max\<close> is strict, so 65504 itself keeps
  its finite code \<open>0x7BFF\<close>. Every float that is not a NaN and whose magnitude is above
  65504, finite or infinite, of either sign, is encoded as the half-precision infinity with
  its sign; \<open>+\<infinity>\<close> is encoded as \<open>0x7C00\<close>, which decodes to \<open>+\<infinity>\<close>; and every magnitude
  of at least 65520, that is \<open>|x|\<close> for every such \<open>x\<close> that is not a NaN, has the code of
  \<open>+\<infinity>\<close>.
\<close>

theorem half_overflow_to_infinity:
  "(\<not> is_nan x \<and> 65504 * 2 ^ 149 < f32_mag x \<longrightarrow>
      Float16Compressor_compress ub x = (if f32_sign x then 0xFC00 else 0x7C00))
   \<and> Float16Compressor_compress ub 0x7F800000 = 0x7C00
   \<and> Float16Compressor_decompress 0x7C00 = 0x7F800000
   \<and> (\<not> is_nan x \<and> 65520 * 2 ^ 149 \<le> f32_mag x \<longrightarrow>
      Float16Compressor_compress ub (f32_abs x) = Float16Compressor_compress ub 0x7F800000)"
proof -
  have inf: "Float16Compressor_compress ub 0x7F800000 = 0x7C00"
  proof -
    have "\<not> is_nan 0x7F800000" "65504 * 2 ^ 149 < f32_mag 0x7F800000" "\<not> f32_sign 0x7F800000"
      by (simp_all add: is_nan_def f32_mag_def f32_exp_def f32_frac_def f32_sign_def)
    then show ?thesis using compress_overflow [of "0x7F800000" ub] by simp
  qed
  have dec: "Float16Compressor_decompress 0x7C00 = 0x7F800000"
  proof -
    have "uint (decompress_mag 0x7C00) = uint (0x7F800000 :: 32 word)"
      using decompress_mag_special [of "0x7C00"] by simp
    then have "decompress_mag 0x7C00 = 0x7F800000" by (simp only: word_uint_eq_iff)
    then show ?thesis by (simp add: decompress_split)
  qed
  have big: "Float16Compressor_compress ub (f32_abs x) = 0x7C00"
    if "\<not> is_nan x" "65520 * 2 ^ 149 \<le> f32_mag x"
  proof -
    have "\<not> is_nan (f32_abs x)" using that(1) by simp
    moreover have "65504 * 2 ^ 149 < f32_mag (f32_abs x)" using that(2) by simp
    ultimately show ?thesis using compress_overflow [of "f32_abs x" ub] by simp
  qed
  show ?thesis
    using compress_overflow [of x ub] inf dec big by simp
qed

theorem half_overflow_to_infinity_witness:
  "\<not> is_nan 0xFF800000 \<and> 65504 * 2 ^ 149 < f32_mag 0xFF800000 \<and>
   Float16Compressor_compress 0x80000000 0xFF800000 = 0xFC00 \<and>
   \<not> is_nan 0x477FE001 \<and> 65504 * 2 ^ 149 < f32_mag 0x477FE001 \<and>
   Float16Compressor_compress 0x80000000 0x477FE001 = 0x7C00 \<and>
   \<not> is_nan 0xC77FF000 \<and> 65520 * 2 ^ 149 \<le> f32_mag 0xC77FF000 \<and>
   Float16Compressor_compress 0x80000000 (f32_abs 0xC77FF000) =
     Float16Compressor_compress 0x80000000 0x7F800000"
  using half_overflow_to_infinity [of "0xFF800000" "0x80000000"]
    half_overflow_to_infinity [of "0x477FE001" "0x80000000"]
    half_overflow_to_infinity [of "0xC77FF000" "0x80000000"]
  by (simp add: is_nan_def f32_mag_def f32_sign_def f32_exp_def f32_frac_def)

text \<open>
  C5 as stated fails at \<open>|x| = 65504\<close> (bits \<open>0x477FE000\<close>): the float is finite, its
  magnitude is at least 65504, and its code is the largest finite half \<open>0x7BFF\<close>, not the
  infinity \<open>0x7C00\<close>.
\<close>

theorem half_max_is_not_infinity:
  "is_finite 0x477FE000 \<and> f32_mag 0x477FE000 = 65504 * 2 ^ 149
   \<and> Float16Compressor_compress 0x80000000 0x477FE000 = 0x7BFF
   \<and> Float16Compressor_compress 0x80000000 0x477FE000 \<noteq> 0x7C00"
proof -
  have "uint (compress_mag 0x80000000 0x477FE000) = uint (0x7BFF :: 32 word)"
    using compress_mag_normal [of "0x477FE000" "0x80000000"] by simp
  then have "compress_mag 0x80000000 0x477FE000 = 0x7BFF" by (simp only: word_uint_eq_iff)
  then show ?thesis
    by (simp add: compress_split f32_abs_def f32_sign_def is_finite_def f32_mag_def f32_exp_def f32_frac_def)
qed


lemma compress_mag_any_nan:
  assumes lt: "uint a < 2147483648" and nan: "is_nan a"
  shows "uint (compress_mag ub a) = 0x7C00 + max 1 (int (f32_frac a) div 8192)"
proof -
  have lo: "0x7F800000 < uint a" using nan by (simp add: is_nan_uint [OF lt])
  have "f32_exp a = 255" using nan by (simp add: is_nan_def)
  then have ua: "uint a = 0x7F800000 + int (f32_frac a)"
    using uint_fields [OF lt] by simp
  define f where "f = int (f32_frac a)"
  have f: "0 < f" "f < 8388608" using lo ua f32_frac_lt [of a] by (simp_all add: f_def)
  show ?thesis
  proof (cases "f < 8192")
    case True
    then have "f div 8192 = 0" using f by (intro div_pos_pos_trivial) simp_all
    moreover have "compress_mag ub a = 0x7C01"
      using lo True ua by (intro compress_mag_small_nan) (simp_all add: f_def)
    ultimately show ?thesis by (simp add: f_def)
  next
    case False
    then have ge: "0x7F802000 \<le> uint a" using ua by (simp add: f_def)
    have "1 \<le> f div 8192" using False by (intro int_div_lower) simp_all
    then have m: "max 1 (f div 8192) = f div 8192" by simp
    have "uint a div 8192 = (0x3FC00 * 8192 + f) div 8192" by (simp add: ua f_def)
    also have "\<dots> = 0x3FC00 + f div 8192" by (simp only: div_mult_self3)
    finally have "uint a div 8192 - 0x38000 = 0x7C00 + f div 8192" by simp
    then show ?thesis using compress_mag_nan [OF ge lt] m by (simp add: f_def)
  qed
qed

text \<open>
  C6, as the code has it. A NaN is encoded as a half-precision NaN with the sign of \<open>x\<close>:
  the exponent field is 31 and the significand is the top 10 bits of the significand of
  \<open>x\<close>, or 1 (the minimum NaN) when those are all zero. The result decodes to a 32-bit NaN.
\<close>

theorem half_nan_encoding:
  assumes "is_nan x"
  shows "f16_exp (Float16Compressor_compress ub x) = 31
       \<and> f16_frac (Float16Compressor_compress ub x) = max 1 (f32_frac x div 8192)
       \<and> (bit (Float16Compressor_compress ub x) 15 \<longleftrightarrow> f32_sign x)
       \<and> is_nan (Float16Compressor_decompress (Float16Compressor_compress ub x))"
proof -
  define a where "a = f32_abs x"
  define V where "V = compress_mag ub a"
  define h where "h = Float16Compressor_compress ub x"
  define r where "r = max 1 (int (f32_frac x) div 8192)"
  have lt: "uint a < 2147483648" unfolding a_def by (rule uint_f32_abs_lt)
  have nan: "is_nan a" using assms by (simp add: a_def)
  have uV: "uint V = 0x7C00 + r"
    unfolding V_def r_def using compress_mag_any_nan [OF lt nan] by (simp add: a_def)
  have "int (f32_frac x) div 8192 < 1024"
    using f32_frac_lt [of x] by (intro int_div_upper) simp_all
  then have r: "1 \<le> r" "r < 1024" by (simp_all add: r_def)
  have V8: "uint V < 0x8000" using uV r by simp
  have hV: "h = ucast (V OR (if f32_sign x then 0x8000 else 0))"
    unfolding h_def V_def a_def by (rule compress_split)
  have mh: "(ucast (h AND 0x7FFF) :: 32 word) = V" unfolding hV by (rule join16_abs [OF V8])
  have sh: "bit h 15 \<longleftrightarrow> f32_sign x" unfolding hV by (rule join16_sign [OF V8])
  have "int (f16_exp h) = (31 * 1024 + r) div 1024" by (simp add: f16_fields mh uV)
  also have "\<dots> = 31" using r by (intro int_divmod_fields) simp_all
  finally have e: "f16_exp h = 31" by simp
  have "int (f16_frac h) = (31 * 1024 + r) mod 1024" by (simp add: f16_fields mh uV)
  also have "\<dots> = r" using r by (intro int_divmod_fields) simp_all
  finally have "int (f16_frac h) = max 1 (int (f32_frac x) div 8192)" by (simp add: r_def)
  also have "\<dots> = int (max 1 (f32_frac x div 8192))" by (simp add: zdiv_int)
  finally have fr: "f16_frac h = max 1 (f32_frac x div 8192)" by (simp only: of_nat_eq_iff)
  define D where "D = decompress_mag V"
  have uD: "uint D = (uint V + 0x38000) * 8192"
    unfolding D_def using uV r by (intro decompress_mag_special) simp_all
  have Dlt: "uint D < 2147483648" using uD uV r by simp
  have "is_nan D" using uD uV r by (simp add: is_nan_uint [OF Dlt])
  moreover have "f32_abs (Float16Compressor_decompress h) = D"
    unfolding decompress_split mh D_def [symmetric] by (rule join32_abs [OF Dlt])
  ultimately have "is_nan (f32_abs (Float16Compressor_decompress h))" by simp
  then have "is_nan (Float16Compressor_decompress h)" by simp
  then show ?thesis using e fr sh unfolding h_def by simp
qed

theorem half_nan_encoding_witness:
  "is_nan 0xFFC00000 \<and> f16_exp (Float16Compressor_compress 0x80000000 0xFFC00000) = 31 \<and>
   f16_frac (Float16Compressor_compress 0x80000000 0xFFC00000) = 512 \<and>
   bit (Float16Compressor_compress 0x80000000 0xFFC00000) 15 \<and>
   is_nan (Float16Compressor_decompress (Float16Compressor_compress 0x80000000 0xFFC00000))"
  using half_nan_encoding [of "0xFFC00000" "0x80000000"]
  by (simp add: is_nan_def f32_exp_def f32_frac_def f32_sign_def)

text \<open>
  C6 as stated fails at the default quiet NaN \<open>0x7FC00000\<close>: its code is \<open>0x7E00\<close>, not
  the minimum half-precision NaN \<open>0x7C01\<close>.
\<close>

theorem half_quiet_nan_not_canonical:
  "is_nan 0x7FC00000 \<and> Float16Compressor_compress 0x80000000 0x7FC00000 = 0x7E00
   \<and> Float16Compressor_compress 0x80000000 0x7FC00000 \<noteq> 0x7C01"
proof -
  have n: "is_nan 0x7FC00000" by (simp add: is_nan_def f32_exp_def f32_frac_def)
  have "uint (compress_mag 0x80000000 0x7FC00000) = uint (0x7E00 :: 32 word)"
    using compress_mag_any_nan [of "0x7FC00000" "0x80000000"] n by (simp add: f32_frac_def)
  then have "compress_mag 0x80000000 0x7FC00000 = 0x7E00" by (simp only: word_uint_eq_iff)
  then show ?thesis
    using n by (simp add: compress_split f32_abs_def f32_sign_def)
qed



section \<open>Signed arithmetic on 32-bit words\<close>

lemma sint_add_small:
  assumes "- 2147483648 \<le> sint a + sint b" "sint a + sint b < 2147483648"
  shows "sint (a + b :: 32 word) = sint a + sint b"
  unfolding sint_word_add using assms by (intro signed_take_bit_int_eq_self) simp_all

lemma sint_sub_small:
  assumes "- 2147483648 \<le> sint a - sint b" "sint a - sint b < 2147483648"
  shows "sint (a - b :: 32 word) = sint a - sint b"
  unfolding sint_word_diff using assms by (intro signed_take_bit_int_eq_self) simp_all

lemma sint_bounds: "- 2147483648 \<le> sint (w :: 32 word)" "sint w < 2147483648"
  using sint_ge [of w] sint_lt [of w] by simp_all

lemma xor_sign_add: "(v :: 32 word) XOR 0x80000000 = v + 0x80000000"
proof (cases "bit v 31")
  case False
  then have "v AND 0x80000000 = 0" by (simp add: and_sign32)
  then show ?thesis by (simp add: disjunctive_add_eq_xor)
next
  case True
  define w where "w = v XOR 0x80000000"
  have "\<not> bit w 31" using True by (simp add: w_def bit_xor_iff bit_0x80000000)
  then have "w AND 0x80000000 = 0" by (simp add: and_sign32)
  then have "w + 0x80000000 = w XOR 0x80000000" by (rule disjunctive_add_eq_xor)
  also have "\<dots> = v" unfolding w_def by (rule bit_word_eqI) (auto simp add: bit_xor_iff)
  finally have wv: "w + 0x80000000 = v" .
  have "v + 0x80000000 = w + (0x80000000 + 0x80000000)"
    unfolding wv [symmetric] by (simp only: add.assoc)
  also have "\<dots> = w" by simp
  finally show ?thesis by (simp add: w_def)
qed

lemma sint_sign_const: "sint (0x80000000 :: 32 word) = - 2147483648"
  by simp

lemma sint_xor_sign:
  "sint ((v :: 32 word) XOR 0x80000000) =
     (if sint v < 0 then sint v + 2147483648 else sint v - 2147483648)"
proof (cases "sint v < 0")
  case True
  have "v XOR 0x80000000 = v - 0x80000000" by (simp add: xor_sign_add)
  moreover have "sint (v - 0x80000000) = sint v - sint (0x80000000 :: 32 word)"
    using True sint_bounds [of v] by (intro sint_sub_small) simp_all
  ultimately show ?thesis using True by simp
next
  case False
  have "sint (v + 0x80000000) = sint v + sint (0x80000000 :: 32 word)"
    using False sint_bounds [of v] by (intro sint_add_small) simp_all
  then show ?thesis using False by (simp add: xor_sign_add)
qed

text \<open>A float as a signed integer: the sign bit weighs \<open>- 2\<^sup>3\<^sup>1\<close>.\<close>

lemma uint_sign_abs:
  "uint x = uint (f32_abs x) + (if f32_sign x then 2147483648 else 0)"
proof -
  have "uint x = uint (f32_abs x OR (if f32_sign x then 0x80000000 else 0))"
    by (simp only: rejoin32)
  also have "\<dots> = uint (f32_abs x + (if f32_sign x then 0x80000000 else 0))"
  proof -
    have "f32_abs x AND 0x80000000 = 0"
      using f32_sign_abs [of x] by (simp add: and_sign32 f32_sign_def)
    then have "f32_abs x + 0x80000000 = f32_abs x OR 0x80000000"
      by (rule disjunctive_add_eq_or)
    then show ?thesis by simp
  qed
  also have "\<dots> = uint (f32_abs x) + (if f32_sign x then 2147483648 else 0)"
    using uint_f32_abs_lt [of x] by (simp add: uint_add_small)
  finally show ?thesis .
qed

lemma sint_float:
  "sint x = (if f32_sign x then uint (f32_abs x) - 2147483648 else uint (f32_abs x))"
  using uint_f32_abs_lt [of x] uint32_bounds [of "f32_abs x"]
  by (simp add: sint32 uint_sign_abs [of x])

lemma f32_sign_sint: "f32_sign x \<longleftrightarrow> sint x < 0"
  unfolding f32_sign_def using bit_last_iff [of x] by simp

section \<open>FloatCompressor: a legal configuration in numbers\<close>

lemma f32_val_0: "f32_val 0 = 0" "\<not> is_nan 0"
  by (simp_all add: f32_val_def f32_mag_0 is_nan_def f32_exp_def)

lemma positive_float:
  assumes "flt 0 x"
  shows "\<not> f32_sign x" "1 \<le> uint x" "uint x \<le> 0x7F800000" "f32_abs x = x"
proof -
  have v: "0 < f32_val x" and n: "\<not> is_nan x" using assms by (simp_all add: flt_def f32_val_0)
  show s: "\<not> f32_sign x"
    using v f32_mag_nonneg [of x] by (cases "f32_sign x") (simp_all add: f32_val_def)
  then have lt: "uint x < 2147483648" by (simp add: f32_sign_uint)
  then show a: "f32_abs x = x" by (rule f32_abs_id)
  have "x \<noteq> 0" using v by (auto simp add: f32_val_0)
  then have "uint x \<noteq> 0" by (simp add: uint_0_iff)
  moreover have "0 \<le> uint x" by simp
  ultimately show "1 \<le> uint x" by linarith
  show "uint x \<le> 0x7F800000" using n by (simp add: is_nan_uint [OF lt])
qed

lemma legal_facts:
  assumes "legal mn ep mx pr"
  shows "\<not> f32_sign ep" "1 \<le> uint ep" "uint ep < uint mx"
    "\<not> f32_sign mx" "uint mx \<le> 0x7F800000"
    "f32_sign mn \<Longrightarrow> uint (f32_abs mn) \<le> 0x7F800000"
    "\<not> f32_sign mn \<Longrightarrow> mn = 0"
    "0 \<le> pr" "pr \<le> 23"
proof -
  have e: "flt 0 ep" and m: "flt ep mx" and n: "fle mn 0" and p: "0 \<le> pr" "pr \<le> 23"
    using assms by (simp_all add: legal_def)
  show "\<not> f32_sign ep" "1 \<le> uint ep" using e by (rule positive_float)+
  have "f32_val 0 < f32_val ep" using e by (simp add: flt_def)
  also have "\<dots> < f32_val mx" using m by (simp add: flt_def)
  finally have "flt 0 mx" using m by (simp add: flt_def f32_val_0)
  then show sx: "\<not> f32_sign mx" and "uint mx \<le> 0x7F800000" by (rule positive_float)+
  have "f32_mag ep < f32_mag mx"
    using m sx \<open>\<not> f32_sign ep\<close> by (simp add: flt_def f32_val_def)
  moreover have "uint ep < 2147483648" "uint mx < 2147483648"
    using sx \<open>\<not> f32_sign ep\<close> by (simp_all add: f32_sign_uint)
  ultimately show "uint ep < uint mx" by (simp add: f32_mag_less_iff)
  show "0 \<le> pr" "pr \<le> 23" by fact+
  have nn: "\<not> is_nan mn" and v: "f32_val mn \<le> 0" using n by (simp_all add: fle_def f32_val_0)
  show "uint (f32_abs mn) \<le> 0x7F800000" if "f32_sign mn"
    using is_nan_uint [OF uint_f32_abs_lt, of mn] nn by simp
  show "mn = 0" if "\<not> f32_sign mn"
  proof -
    have "f32_val mn = 0" using v that f32_mag_nonneg [of mn] by (simp add: f32_val_def)
    then show ?thesis using f32_val_zero [of mn] that by simp
  qed
qed

lemma init_fields:
  "negatives (FloatCompressor_init mn ep mx pr) = f32_sign mn"
  "lossless (FloatCompressor_init mn ep mx pr) = (pr = 23)"
  "f_max (FloatCompressor_init mn ep mx pr) = mx"
  "f_min (FloatCompressor_init mn ep mx pr) = mn"
  "f_eps (FloatCompressor_init mn ep mx pr) = ep"
  "shift (FloatCompressor_init mn ep mx pr) = 23 - pr"
  by (auto simp add: FloatCompressor_init_def Let_def f32_sign_sint word_sless_alt)

lemma signF_eq: "signF = 0x80000000" "absF = 0x7FFFFFFF"
  by (simp_all add: signF_def absF_def)

lemma init_lossless:
  "c_zero (FloatCompressor_init mn ep mx 23) = 0x80000000"
  "c_max (FloatCompressor_init mn ep mx 23) = mx XOR 0x80000000"
  "p_delta (FloatCompressor_init mn ep mx 23) = (ep XOR 0x80000000) - 0x80000000 - 1"
  "n_delta (FloatCompressor_init mn ep mx 23) = ep - (mx XOR 0x80000000) - 1"
  by (simp_all add: FloatCompressor_init_def Let_def signF_eq)


section \<open>FloatCompressor: clamp\<close>

lemma select_cmask: "a XOR ((b XOR a) AND cmask c) = (if c then b else a)"
  using blend_eq [of c b a] by (simp add: blend_def)

lemma and_cmask: "v AND cmask c = (if c then v else 0)"
  by (cases c) (simp_all add: cmask_simps)

lemma sle_abs:
  assumes "uint e < 2147483648"
  shows "e \<le>s (v AND absF) \<longleftrightarrow> uint e \<le> uint (f32_abs v)"
  using assms uint_f32_abs_lt [of v]
  by (simp add: word_sle_eq sint_small signF_eq f32_abs_def)

lemma clamp_alt:
  assumes "uint (f_eps c) < 2147483648"
  shows "FloatCompressor_clamp c x =
     (let m = (if negatives c \<and> f32_sign x then f_min c else f_max c);
          v = (if sint m < sint x then m else x)
      in if uint (f_eps c) \<le> uint (f32_abs v) then v else 0)"
  by (simp add: FloatCompressor_clamp_def Let_def blend_eq and_cmask xor_xor_cancel
      sle_abs [OF assms] word_sless_alt f32_sign_sint)

lemma clamp_positive:
  assumes L: "legal mn ep mx pr" and s: "\<not> f32_sign x"
  shows "FloatCompressor_clamp (FloatCompressor_init mn ep mx pr) x =
     (if uint x < uint ep then 0 else if uint x \<le> uint mx then x else mx)"
proof -
  note F = legal_facts [OF L]
  have x: "f32_abs x = x" "sint x = uint x"
    using s by (simp_all add: f32_abs_id f32_sign_uint sint_float)
  have m: "f32_abs mx = mx" "sint mx = uint mx"
    using F(4) by (simp_all add: f32_abs_id f32_sign_uint sint_float)
  have e: "uint ep < 2147483648" using F(1) by (simp add: f32_sign_uint)
  show ?thesis
    using F(3) s by (simp add: clamp_alt init_fields e Let_def x m)
qed

lemma clamp_negative:
  assumes L: "legal mn ep mx pr" and s: "f32_sign x" and n: "f32_sign mn"
  shows "FloatCompressor_clamp (FloatCompressor_init mn ep mx pr) x =
     (if uint (f32_abs x) \<le> uint (f32_abs mn)
      then (if uint (f32_abs x) < uint ep then 0 else x)
      else (if uint (f32_abs mn) < uint ep then 0 else mn))"
proof -
  note F = legal_facts [OF L]
  have e: "uint ep < 2147483648" using F(1) by (simp add: f32_sign_uint)
  show ?thesis
    using s n by (simp add: clamp_alt init_fields e Let_def sint_float)
qed

lemma clamp_negative_unsigned_min:
  assumes L: "legal mn ep mx pr" and s: "f32_sign x" and n: "\<not> f32_sign mn"
  shows "FloatCompressor_clamp (FloatCompressor_init mn ep mx pr) x =
     (if uint (f32_abs x) < uint ep then 0 else x)"
proof -
  note F = legal_facts [OF L]
  have e: "uint ep < 2147483648" using F(1) by (simp add: f32_sign_uint)
  have m: "sint mx = uint mx"
    using F(4) by (simp_all add: sint_float f32_abs_id f32_sign_uint)
  have "sint x < 0" using s by (simp add: f32_sign_sint)
  moreover have "0 \<le> uint mx" by simp
  ultimately have "\<not> sint mx < sint x" unfolding m by linarith
  then show ?thesis
    using s n by (simp add: clamp_alt init_fields e Let_def)
qed

lemma not_nan_uint: "uint (f32_abs x) \<le> 0x7F800000 \<Longrightarrow> \<not> is_nan x"
  using is_nan_uint [OF uint_f32_abs_lt, of x] by simp

lemma f32_mag_abs_le:
  "uint (f32_abs a) \<le> uint (f32_abs b) \<Longrightarrow> f32_mag a \<le> f32_mag b"
  using f32_mag_le_iff [OF uint_f32_abs_lt uint_f32_abs_lt, of a b] by simp

lemma fle_zero_left: "\<not> f32_sign r \<Longrightarrow> \<not> is_nan r \<Longrightarrow> fle 0 r"
  using f32_mag_nonneg [of r] by (simp add: fle_def f32_val_0 f32_val_def [of r])

lemma fle_zero_right: "f32_sign r \<Longrightarrow> \<not> is_nan r \<Longrightarrow> fle r 0"
  using f32_mag_nonneg [of r] by (simp add: fle_def f32_val_0 f32_val_def [of r])

lemma fle_trans: "fle a b \<Longrightarrow> fle b c \<Longrightarrow> fle a c"
  by (auto simp add: fle_def)

lemma fle_refl: "\<not> is_nan a \<Longrightarrow> fle a a"
  by (simp add: fle_def)

lemma clamp_in_range_signed:
  fixes x :: f32
  assumes L: "legal mn ep mx pr" and n: "f32_sign mn"
  defines "r \<equiv> FloatCompressor_clamp (FloatCompressor_init mn ep mx pr) x"
  shows "fle mn r \<and> fle r mx"
proof -
  note F = legal_facts [OF L]
  have mn0: "fle mn 0" and mx0: "fle 0 mx"
    using L F(4,5) by (auto simp add: legal_def intro!: fle_zero_left not_nan_uint
        simp: f32_abs_id f32_sign_uint)
  have nmn: "\<not> is_nan mn" and nmx: "\<not> is_nan mx" using mn0 mx0 by (simp_all add: fle_def)
  have zero: "fle mn 0 \<and> fle 0 mx" using mn0 mx0 by simp
  show ?thesis
  proof (cases "f32_sign x")
    case False
    then have ax: "f32_abs x = x" by (simp add: f32_abs_id f32_sign_uint)
    have am: "f32_abs mx = mx" using F(4) by (simp add: f32_abs_id f32_sign_uint)
    have r: "r = (if uint x < uint ep then 0 else if uint x \<le> uint mx then x else mx)"
      unfolding r_def using L False by (rule clamp_positive)
    consider "r = 0" | "r = x" "uint x \<le> uint mx" | "r = mx" using r by (auto split: if_splits)
    then show ?thesis
    proof cases
      case 1 then show ?thesis using zero by simp
    next
      case 2
      have nx: "\<not> is_nan x" using 2(2) F(5) by (intro not_nan_uint) (simp add: ax)
      have "f32_mag x \<le> f32_mag mx" using 2(2) by (intro f32_mag_abs_le) (simp add: ax am)
      then have "fle x mx" using nx nmx False F(4) by (simp add: fle_def f32_val_def)
      moreover have "fle 0 x" using False nx by (rule fle_zero_left)
      ultimately show ?thesis using 2(1) mn0 by (auto intro: fle_trans)
    next
      case 3 then show ?thesis using mn0 mx0 nmx by (auto intro: fle_trans fle_refl)
    qed
  next
    case True
    have r: "r = (if uint (f32_abs x) \<le> uint (f32_abs mn)
        then (if uint (f32_abs x) < uint ep then 0 else x)
        else (if uint (f32_abs mn) < uint ep then 0 else mn))"
      unfolding r_def using L True n by (rule clamp_negative)
    consider "r = 0" | "r = x" "uint (f32_abs x) \<le> uint (f32_abs mn)" | "r = mn"
      using r by (auto split: if_splits)
    then show ?thesis
    proof cases
      case 1 then show ?thesis using zero by simp
    next
      case 2
      have nx: "\<not> is_nan x" using 2(2) F(6) [OF n] by (intro not_nan_uint) simp
      have "f32_mag x \<le> f32_mag mn" using 2(2) by (rule f32_mag_abs_le)
      then have "fle mn x" using nx nmn True n by (simp add: fle_def f32_val_def)
      moreover have "fle x 0" using True nx by (rule fle_zero_right)
      ultimately show ?thesis using 2(1) mx0 by (auto intro: fle_trans)
    next
      case 3 then show ?thesis using mn0 mx0 nmn by (auto intro: fle_trans fle_refl)
    qed
  qed
qed

lemma clamp_in_range_unsigned:
  assumes L: "legal mn ep mx pr" and s: "\<not> f32_sign x"
  defines "r \<equiv> FloatCompressor_clamp (FloatCompressor_init mn ep mx pr) x"
  shows "fle 0 r \<and> fle r mx"
proof -
  note F = legal_facts [OF L]
  have mx0: "fle 0 mx"
    using F(4,5) by (auto intro!: fle_zero_left not_nan_uint simp: f32_abs_id f32_sign_uint)
  have nmx: "\<not> is_nan mx" using mx0 by (simp add: fle_def)
  have ax: "f32_abs x = x" using s by (simp add: f32_abs_id f32_sign_uint)
  have am: "f32_abs mx = mx" using F(4) by (simp add: f32_abs_id f32_sign_uint)
  have r: "r = (if uint x < uint ep then 0 else if uint x \<le> uint mx then x else mx)"
    unfolding r_def using L s by (rule clamp_positive)
  consider "r = 0" | "r = x" "uint x \<le> uint mx" | "r = mx" using r by (auto split: if_splits)
  then show ?thesis
  proof cases
    case 1 then show ?thesis using mx0 by (simp add: fle_refl f32_val_0)
  next
    case 2
    have nx: "\<not> is_nan x" using 2(2) F(5) by (intro not_nan_uint) (simp add: ax)
    have "f32_mag x \<le> f32_mag mx" using 2(2) by (intro f32_mag_abs_le) (simp add: ax am)
    then have "fle x mx" using nx nmx s F(4) by (simp add: fle_def f32_val_def)
    moreover have "fle 0 x" using s nx by (rule fle_zero_left)
    ultimately show ?thesis using 2(1) by simp
  next
    case 3 then show ?thesis using mx0 nmx by (simp add: fle_refl)
  qed
qed

lemma clamp_dead_zone:
  assumes L: "legal mn ep mx pr" and d: "flt (f32_abs x) ep"
  shows "FloatCompressor_clamp (FloatCompressor_init mn ep mx pr) x = 0"
proof -
  note F = legal_facts [OF L]
  have "f32_mag (f32_abs x) < f32_mag ep"
    using d F(1) by (simp add: flt_def f32_val_def)
  moreover have "uint ep < 2147483648" using F(1) by (simp add: f32_sign_uint)
  ultimately have lt: "uint (f32_abs x) < uint ep"
    using uint_f32_abs_lt [of x] by (subst (asm) f32_mag_less_iff) simp_all
  show ?thesis
  proof (cases "f32_sign x")
    case False
    then have "f32_abs x = x" by (simp add: f32_abs_id f32_sign_uint)
    then show ?thesis using lt clamp_positive [OF L False] by simp
  next
    case True
    show ?thesis
    proof (cases "f32_sign mn")
      case n: True
      show ?thesis using lt clamp_negative [OF L True n] by auto
    next
      case n: False
      show ?thesis using lt clamp_negative_unsigned_min [OF L True n] by simp
    qed
  qed
qed

text \<open>
  C4, as the code has it. When negatives are representable (the sign bit of \<open>min\<close> is
  set) the result of \<open>clamp\<close> lies in \<open>[min, max]\<close> for every input, a NaN included.
  Otherwise the upper bound alone is applied, and the result lies in \<open>[0, max]\<close> for every
  input whose sign bit is clear. Whenever \<open>|x| < epsilon\<close> the result is the bit pattern
  0, that is \<open>+0.0\<close>, whatever the sign of \<open>x\<close>.
\<close>

theorem clamp_range_and_dead_zone:
  assumes "legal mn ep mx pr"
  shows "(f32_sign mn \<longrightarrow>
            fle mn (FloatCompressor_clamp (FloatCompressor_init mn ep mx pr) x)
          \<and> fle (FloatCompressor_clamp (FloatCompressor_init mn ep mx pr) x) mx)
       \<and> (\<not> f32_sign mn \<and> \<not> f32_sign x \<longrightarrow>
            fle 0 (FloatCompressor_clamp (FloatCompressor_init mn ep mx pr) x)
          \<and> fle (FloatCompressor_clamp (FloatCompressor_init mn ep mx pr) x) mx)
       \<and> (flt (f32_abs x) ep \<longrightarrow>
            FloatCompressor_clamp (FloatCompressor_init mn ep mx pr) x = 0)"
  using clamp_in_range_signed [OF assms] clamp_in_range_unsigned [OF assms]
    clamp_dead_zone [OF assms]
  by blast

lemmas f32_eval = is_nan_def is_finite_def f32_val_def f32_mag_def f32_sign_def f32_exp_def
  f32_frac_def flt_def fle_def f32_abs_def legal_def

lemmas fc_eval = FloatCompressor_init_def FloatCompressor_clamp_def FloatCompressor_compress_def
  FloatCompressor_decompress_def Let_def blend_def cmask_def signF_def absF_def word_sless_alt
  word_sle_eq

theorem clamp_range_and_dead_zone_witness:
  "legal 0xC0000000 0x3F800000 0x40000000 12 \<and> f32_sign 0xC0000000 \<and>
   flt (f32_abs 0xBF000000) 0x3F800000 \<and>
   fle 0xC0000000 (FloatCompressor_clamp (FloatCompressor_init 0xC0000000 0x3F800000 0x40000000 12) 0xBF000000) \<and>
   FloatCompressor_clamp (FloatCompressor_init 0xC0000000 0x3F800000 0x40000000 12) 0xBF000000 = 0"
  using clamp_range_and_dead_zone [of "0xC0000000" "0x3F800000" "0x40000000" 12 "0xBF000000"]
  by (simp add: f32_eval)

text \<open>
  C4 as stated fails twice in the legal configuration \<open>min = 0\<close>, \<open>epsilon = 1\<close>,
  \<open>max = 2\<close>: \<open>-1.5\<close> is returned unchanged, outside \<open>[0, max]\<close>, and \<open>-0.0\<close>, which is in
  the dead zone, gives \<open>+0.0\<close> and not a zero with the sign of the input.
\<close>

theorem clamp_leaves_range_and_drops_zero_sign:
  "legal 0 0x3F800000 0x40000000 12 \<and>
   FloatCompressor_clamp (FloatCompressor_init 0 0x3F800000 0x40000000 12) 0xBFC00000 = 0xBFC00000 \<and>
   \<not> fle 0 0xBFC00000 \<and>
   flt (f32_abs 0x80000000) 0x3F800000 \<and>
   FloatCompressor_clamp (FloatCompressor_init 0 0x3F800000 0x40000000 12) 0x80000000 = 0 \<and>
   (0 :: f32) \<noteq> 0x80000000"
  by (simp add: f32_eval fc_eval)

text \<open>
  C10, as the code has it. The constructor has no check and no error path: for every
  argument, legal or not, for which its shifts by \<open>23 - precision\<close> are defined in C++
  (\<open>0 \<le> 23 - precision < 32\<close>), it completes and returns a configuration that holds the
  three floats as given, the shift \<open>23 - precision\<close> and the two flags read off them.
\<close>

theorem constructor_never_fails:
  "0 \<le> 23 - pr \<and> 23 - pr < 32 \<longrightarrow>
   negatives (FloatCompressor_init mn ep mx pr) = f32_sign mn \<and>
   lossless (FloatCompressor_init mn ep mx pr) = (pr = 23) \<and>
   f_min (FloatCompressor_init mn ep mx pr) = mn \<and>
   f_eps (FloatCompressor_init mn ep mx pr) = ep \<and>
   f_max (FloatCompressor_init mn ep mx pr) = mx \<and>
   shift (FloatCompressor_init mn ep mx pr) = 23 - pr"
  by (simp add: init_fields)

theorem constructor_never_fails_witness:
  "(0 :: int) \<le> 23 - (- 3) \<and> 23 - (- 3) < (32 :: int) \<and>
   \<not> legal 0 0x3F800000 0x40000000 (- 3) \<and>
   negatives (FloatCompressor_init 0 0x3F800000 0x40000000 (- 3)) = False \<and>
   lossless (FloatCompressor_init 0 0x3F800000 0x40000000 (- 3)) = False \<and>
   f_min (FloatCompressor_init 0 0x3F800000 0x40000000 (- 3)) = 0 \<and>
   f_eps (FloatCompressor_init 0 0x3F800000 0x40000000 (- 3)) = 0x3F800000 \<and>
   f_max (FloatCompressor_init 0 0x3F800000 0x40000000 (- 3)) = 0x40000000 \<and>
   shift (FloatCompressor_init 0 0x3F800000 0x40000000 (- 3)) = 26"
  using constructor_never_fails [where pr = "- 3" and mn = 0 and ep = "0x3F800000" and mx = "0x40000000"]
  by (simp add: f32_eval)

text \<open>
  C10 as stated fails at \<open>min = 1.0\<close>, \<open>epsilon = 1.0\<close>, \<open>max = 2.0\<close>, \<open>precision = 12\<close>:
  the configuration is not legal (\<open>min > 0\<close>), and construction completes with these fields.
\<close>

theorem constructor_accepts_positive_min:
  "\<not> legal 0x3F800000 0x3F800000 0x40000000 12 \<and>
   FloatCompressor_init 0x3F800000 0x3F800000 0x40000000 12 =
     \<lparr> negatives = False, lossless = False, f_max = 0x40000000, f_min = 0x3F800000,
       f_eps = 0x3F800000, c_max = 0x80000, c_zero = 0, p_delta = 0x7EFFF,
       n_delta = 0xFEFFF, shift = 11 \<rparr>"
  by (simp add: f32_eval fc_eval)

section \<open>FloatCompressor, lossless mode: the sign trick is an unsigned comparison\<close>

lemma sint_xor_sign_uint: "sint ((a :: 32 word) XOR 0x80000000) = uint a - 2147483648"
proof (cases "uint a < 2147483648")
  case True
  then have "sint a = uint a" by (rule sint_small)
  moreover have "0 \<le> uint a" by simp
  ultimately show ?thesis unfolding sint_xor_sign by simp
next
  case False
  then have "sint a = uint a - 4294967296" by (simp only: sint32 if_False)
  moreover have "uint a < 4294967296" by (rule uint32_bounds)
  ultimately show ?thesis unfolding sint_xor_sign by simp
qed

lemma sless_xor_sign: "((a :: 32 word) XOR 0x80000000) <s (b XOR 0x80000000) \<longleftrightarrow> a < b"
  by (simp add: word_sless_alt sint_xor_sign_uint word_less_def)

lemma sless_sign_xor: "(0x80000000 :: 32 word) <s (b XOR 0x80000000) \<longleftrightarrow> 0 < b"
  using sless_xor_sign [of 0 b] by simp

lemma xor_sign_twice: "((v :: 32 word) XOR 0x80000000) XOR 0x80000000 = v"
  by (simp add: xor.assoc)

lemma xor_sign_sub: "((v :: 32 word) XOR 0x80000000) - d = (v - d) XOR 0x80000000"
  by (simp add: xor_sign_add)

lemma xor_sign_plus: "((v :: 32 word) XOR 0x80000000) + d = (v + d) XOR 0x80000000"
  by (simp add: xor_sign_add)

lemma lossless_compress:
  "FloatCompressor_compress (FloatCompressor_init mn ep mx 23) x =
     (let r = FloatCompressor_clamp (FloatCompressor_init mn ep mx 23) x;
          v = (if f32_sign mn \<and> mx < r then r - n_delta (FloatCompressor_init mn ep mx 23) else r)
      in if 0 < v then v - p_delta (FloatCompressor_init mn ep mx 23) else v)"
proof -
  define c where "c = FloatCompressor_init mn ep mx 23"
  define r where "r = FloatCompressor_clamp c x"
  have f: "lossless c" "negatives c = f32_sign mn" "c_zero c = 0x80000000"
    "c_max c = mx XOR 0x80000000"
    by (simp_all add: c_def init_fields init_lossless)
  show ?thesis
    unfolding c_def [symmetric] r_def [symmetric]
    by (simp add: FloatCompressor_compress_def Let_def r_def [symmetric] f signF_eq blend_eq
        sless_xor_sign sless_sign_xor xor_sign_sub xor_sign_twice)
qed

lemma lossless_decompress:
  "FloatCompressor_decompress (FloatCompressor_init mn ep mx 23) k =
     (let v = (if 0 < k then k + p_delta (FloatCompressor_init mn ep mx 23) else k)
      in if f32_sign mn \<and> mx < v then v + n_delta (FloatCompressor_init mn ep mx 23) else v)"
proof -
  define c where "c = FloatCompressor_init mn ep mx 23"
  have f: "lossless c" "negatives c = f32_sign mn" "c_zero c = 0x80000000"
    "c_max c = mx XOR 0x80000000"
    by (simp_all add: c_def init_fields init_lossless)
  show ?thesis
    unfolding c_def [symmetric]
    by (simp add: FloatCompressor_decompress_def Let_def f signF_eq blend_eq
        sless_xor_sign sless_sign_xor xor_sign_plus xor_sign_twice)
qed

lemma lossless_deltas:
  assumes L: "legal mn ep mx 23"
  shows "uint (p_delta (FloatCompressor_init mn ep mx 23)) = uint ep - 1"
    and "uint (n_delta (FloatCompressor_init mn ep mx 23)) = uint ep + 2147483648 - uint mx - 1"
proof -
  note F = legal_facts [OF L]
  have e: "uint ep < 2147483648" using F(1) by (simp add: f32_sign_uint)
  have "p_delta (FloatCompressor_init mn ep mx 23) = ep - 1"
    by (simp add: init_lossless xor_sign_add)
  then show "uint (p_delta (FloatCompressor_init mn ep mx 23)) = uint ep - 1"
    using F(2) by (simp add: uint_sub_small)
  have n: "n_delta (FloatCompressor_init mn ep mx 23) = (ep + 0x80000000) - mx - 1"
    by (simp add: init_lossless xor_sign_add)
  have 1: "uint (ep + 0x80000000) = uint ep + 2147483648"
    using e by (simp add: uint_add_small)
  have e0: "0 \<le> uint ep" by simp
  have "uint mx \<le> uint (ep + 0x80000000)" unfolding 1 using F(5) e0 by linarith
  then have "uint (ep + 0x80000000 - mx) = uint (ep + 0x80000000) - uint mx"
    by (rule uint_sub_small)
  then have 2: "uint (ep + 0x80000000 - mx) = uint ep + 2147483648 - uint mx"
    by (simp only: 1)
  have u1: "uint (1 :: 32 word) = 1" by simp
  have "1 \<le> uint ep + 2147483648 - uint mx" using F(5) e0 by linarith
  then have "uint (1 :: 32 word) \<le> uint (ep + 0x80000000 - mx)"
    by (simp only: 2 u1)
  then have "uint (ep + 0x80000000 - mx - 1) = uint (ep + 0x80000000 - mx) - uint (1 :: 32 word)"
    by (rule uint_sub_small)
  then have "uint (ep + 0x80000000 - mx - 1) = uint ep + 2147483648 - uint mx - 1"
    by (simp only: 2) simp
  then show "uint (n_delta (FloatCompressor_init mn ep mx 23)) = uint ep + 2147483648 - uint mx - 1"
    by (simp only: n)
qed

section \<open>FloatCompressor: the values clamp can return\<close>

lemma clamp_cases:
  fixes x :: f32
  assumes L: "legal mn ep mx pr"
  defines "r \<equiv> FloatCompressor_clamp (FloatCompressor_init mn ep mx pr) x"
  shows "r = 0
    \<or> (\<not> f32_sign r \<and> uint ep \<le> uint r \<and> uint r \<le> uint mx)
    \<or> (f32_sign r \<and> f32_sign mn \<and> uint ep \<le> uint (f32_abs r)
        \<and> uint (f32_abs r) \<le> uint (f32_abs mn))
    \<or> (f32_sign r \<and> \<not> f32_sign mn \<and> uint ep \<le> uint (f32_abs r))"
proof -
  note F = legal_facts [OF L]
  show ?thesis
  proof (cases "f32_sign x")
    case False
    have "r = (if uint x < uint ep then 0 else if uint x \<le> uint mx then x else mx)"
      unfolding r_def using L False by (rule clamp_positive)
    then show ?thesis using False F(3,4) by (auto split: if_splits)
  next
    case True
    show ?thesis
    proof (cases "f32_sign mn")
      case n: True
      have "r = (if uint (f32_abs x) \<le> uint (f32_abs mn)
        then (if uint (f32_abs x) < uint ep then 0 else x)
        else (if uint (f32_abs mn) < uint ep then 0 else mn))"
        unfolding r_def using L True n by (rule clamp_negative)
      then show ?thesis using True n by (auto split: if_splits)
    next
      case n: False
      have "r = (if uint (f32_abs x) < uint ep then 0 else x)"
        unfolding r_def using L True n by (rule clamp_negative_unsigned_min)
      then show ?thesis using True n by (auto split: if_splits)
    qed
  qed
qed

lemma uint_negative: "f32_sign r \<Longrightarrow> uint r = uint (f32_abs r) + 2147483648"
  using uint_sign_abs [of r] by simp

section \<open>FloatCompressor, lossless mode: codes\<close>

lemma lossless_code_zero:
  assumes L: "legal mn ep mx 23"
    and r: "FloatCompressor_clamp (FloatCompressor_init mn ep mx 23) x = 0"
  shows "FloatCompressor_compress (FloatCompressor_init mn ep mx 23) x = 0"
  by (simp add: lossless_compress r Let_def)

lemma lossless_code_positive:
  assumes L: "legal mn ep mx 23"
    and r: "FloatCompressor_clamp (FloatCompressor_init mn ep mx 23) x = r"
    and R: "\<not> f32_sign r" "uint ep \<le> uint r" "uint r \<le> uint mx"
  shows "uint (FloatCompressor_compress (FloatCompressor_init mn ep mx 23) x) = uint r - uint ep + 1"
proof -
  note F = legal_facts [OF L]
  note D = lossless_deltas [OF L]
  have 1: "\<not> mx < r" "0 < r" using R F(2) by (simp_all add: word_less_def)
  have "uint (r - p_delta (FloatCompressor_init mn ep mx 23)) = uint r - (uint ep - 1)"
    using R(2) by (subst uint_sub_small) (simp_all add: D)
  then show ?thesis by (simp add: lossless_compress r Let_def 1)
qed

lemma lossless_code_negative:
  assumes L: "legal mn ep mx 23"
    and r: "FloatCompressor_clamp (FloatCompressor_init mn ep mx 23) x = r"
    and R: "f32_sign r" "f32_sign mn" "uint ep \<le> uint (f32_abs r)"
      "uint (f32_abs r) \<le> uint (f32_abs mn)"
  shows "uint (FloatCompressor_compress (FloatCompressor_init mn ep mx 23) x) =
     uint (f32_abs r) - 2 * uint ep + uint mx + 2"
proof -
  note F = legal_facts [OF L]
  define c where "c = FloatCompressor_init mn ep mx 23"
  note D = lossless_deltas [OF L, folded c_def]
  define A where "A = uint (f32_abs r)"
  have ur: "uint r = A + 2147483648" unfolding A_def using R(1) by (rule uint_negative)
  have A: "uint ep \<le> A" "A < 2147483648" using R(3) uint_f32_abs_lt [of r] by (simp_all add: A_def)
  have e0: "0 \<le> uint ep" by simp
  have A0: "0 \<le> A" by (simp add: A_def)
  have 1: "mx < r" using ur F(5) A A0 by (simp add: word_less_def)
  have "uint (n_delta c) \<le> uint r" unfolding D ur using F(3,5) A e0 by linarith
  then have "uint (r - n_delta c) = uint r - uint (n_delta c)" by (rule uint_sub_small)
  then have u1: "uint (r - n_delta c) = A - uint ep + uint mx + 1"
    by (simp add: D ur)
  have "0 < A - uint ep + uint mx + 1" using A F(3) e0 by linarith
  then have 2: "0 < r - n_delta c" by (simp add: word_less_def u1)
  have "uint (p_delta c) \<le> uint (r - n_delta c)" unfolding u1 D using F(3) A e0 by linarith
  then have "uint (r - n_delta c - p_delta c) = uint (r - n_delta c) - uint (p_delta c)"
    by (rule uint_sub_small)
  then have "uint (r - n_delta c - p_delta c) = A - 2 * uint ep + uint mx + 2"
    by (simp add: u1 D)
  then show ?thesis
    using R(2) 1 2 unfolding A_def c_def by (simp add: lossless_compress r Let_def)
qed

lemma lossless_code_passed:
  assumes L: "legal mn ep mx 23"
    and r: "FloatCompressor_clamp (FloatCompressor_init mn ep mx 23) x = r"
    and R: "f32_sign r" "\<not> f32_sign mn" "uint ep \<le> uint (f32_abs r)"
  shows "uint (FloatCompressor_compress (FloatCompressor_init mn ep mx 23) x) =
     uint (f32_abs r) + 2147483648 - uint ep + 1"
proof -
  note F = legal_facts [OF L]
  define c where "c = FloatCompressor_init mn ep mx 23"
  note D = lossless_deltas [OF L, folded c_def]
  define A where "A = uint (f32_abs r)"
  have ur: "uint r = A + 2147483648" unfolding A_def using R(1) by (rule uint_negative)
  have A: "uint ep \<le> A" "A < 2147483648" using R(3) uint_f32_abs_lt [of r] by (simp_all add: A_def)
  have e0: "0 \<le> uint ep" by simp
  have A0: "0 \<le> A" by (simp add: A_def)
  have 2: "0 < r" using ur A A0 by (simp add: word_less_def)
  have "uint (p_delta c) \<le> uint r" unfolding ur D using A e0 by linarith
  then have "uint (r - p_delta c) = uint r - uint (p_delta c)" by (rule uint_sub_small)
  then have "uint (r - p_delta c) = A + 2147483648 - uint ep + 1"
    by (simp add: ur D)
  then show ?thesis
    using R(2) 2 unfolding A_def c_def by (simp add: lossless_compress r Let_def)
qed

section \<open>FloatCompressor, lossless mode: decoding\<close>

lemma lossless_decode_zero:
  "FloatCompressor_decompress (FloatCompressor_init mn ep mx 23) 0 = 0"
  by (simp add: lossless_decompress Let_def)

lemma lossless_decode_positive:
  assumes L: "legal mn ep mx 23"
    and k: "uint k = A - uint ep + 1" and A: "uint ep \<le> A" "A \<le> uint mx"
  shows "uint (FloatCompressor_decompress (FloatCompressor_init mn ep mx 23) k) = A"
proof -
  note F = legal_facts [OF L]
  define c where "c = FloatCompressor_init mn ep mx 23"
  note D = lossless_deltas [OF L, folded c_def]
  have e0: "0 \<le> uint ep" by simp
  have 1: "0 < k" using k A by (simp add: word_less_def)
  have "uint k + uint (p_delta c) < 4294967296" unfolding k D using A F(5) by linarith
  then have "uint (k + p_delta c) = uint k + uint (p_delta c)" by (rule uint_add_small)
  then have u: "uint (k + p_delta c) = A" by (simp add: k D)
  have 2: "\<not> mx < k + p_delta c" using u A by (simp add: word_less_def)
  show ?thesis
    using u 1 2 unfolding c_def by (simp add: lossless_decompress Let_def)
qed

lemma lossless_decode_negative:
  assumes L: "legal mn ep mx 23" and n: "f32_sign mn"
    and k: "uint k = A - 2 * uint ep + uint mx + 2" and A: "uint ep \<le> A" "A < 2147483648"
  shows "uint (FloatCompressor_decompress (FloatCompressor_init mn ep mx 23) k) = A + 2147483648"
proof -
  note F = legal_facts [OF L]
  define c where "c = FloatCompressor_init mn ep mx 23"
  note D = lossless_deltas [OF L, folded c_def]
  have e0: "0 \<le> uint ep" by simp
  have "0 < A - 2 * uint ep + uint mx + 2" using A F(3) by linarith
  then have 1: "0 < k" by (simp add: word_less_def k)
  have "uint k + uint (p_delta c) < 4294967296" unfolding k D using A F(5) e0 by linarith
  then have "uint (k + p_delta c) = uint k + uint (p_delta c)" by (rule uint_add_small)
  then have u: "uint (k + p_delta c) = A - uint ep + uint mx + 1" by (simp add: k D)
  have "uint mx < A - uint ep + uint mx + 1" using A by linarith
  then have 2: "mx < k + p_delta c" by (simp add: word_less_def u)
  have "uint (k + p_delta c) + uint (n_delta c) < 4294967296"
    unfolding u D using A F(5) e0 by linarith
  then have "uint (k + p_delta c + n_delta c) = uint (k + p_delta c) + uint (n_delta c)"
    by (rule uint_add_small)
  then have "uint (k + p_delta c + n_delta c) = A + 2147483648" by (simp add: u D)
  then show ?thesis
    using n 1 2 unfolding c_def by (simp add: lossless_decompress Let_def)
qed

lemma lossless_decode_passed:
  assumes L: "legal mn ep mx 23" and n: "\<not> f32_sign mn"
    and k: "uint k = A + 2147483648 - uint ep + 1" and A: "uint ep \<le> A" "A < 2147483648"
  shows "uint (FloatCompressor_decompress (FloatCompressor_init mn ep mx 23) k) = A + 2147483648"
proof -
  note F = legal_facts [OF L]
  define c where "c = FloatCompressor_init mn ep mx 23"
  note D = lossless_deltas [OF L, folded c_def]
  have e0: "0 \<le> uint ep" by simp
  have "0 < A + 2147483648 - uint ep + 1" using A by linarith
  then have 1: "0 < k" by (simp add: word_less_def k)
  have "uint k + uint (p_delta c) < 4294967296" unfolding k D using A by linarith
  then have "uint (k + p_delta c) = uint k + uint (p_delta c)" by (rule uint_add_small)
  then have u: "uint (k + p_delta c) = A + 2147483648" by (simp add: k D)
  show ?thesis
    using n 1 u unfolding c_def by (simp add: lossless_decompress Let_def)
qed

lemma lossless_roundtrip:
  assumes L: "legal mn ep mx 23"
  shows "FloatCompressor_decompress (FloatCompressor_init mn ep mx 23)
           (FloatCompressor_compress (FloatCompressor_init mn ep mx 23) x)
         = FloatCompressor_clamp (FloatCompressor_init mn ep mx 23) x"
proof -
  define c where "c = FloatCompressor_init mn ep mx 23"
  define r where "r = FloatCompressor_clamp c x"
  define k where "k = FloatCompressor_compress c x"
  have r: "FloatCompressor_clamp (FloatCompressor_init mn ep mx 23) x = r"
    by (simp add: r_def c_def)
  consider "r = 0"
    | "\<not> f32_sign r" "uint ep \<le> uint r" "uint r \<le> uint mx"
    | "f32_sign r" "f32_sign mn" "uint ep \<le> uint (f32_abs r)"
        "uint (f32_abs r) \<le> uint (f32_abs mn)"
    | "f32_sign r" "\<not> f32_sign mn" "uint ep \<le> uint (f32_abs r)"
    using clamp_cases [OF L, of x] unfolding r by blast
  then have "uint (FloatCompressor_decompress c k) = uint r"
  proof cases
    case 1
    then have "k = 0" unfolding k_def c_def using lossless_code_zero [OF L] r by simp
    then show ?thesis using 1 by (simp add: c_def lossless_decode_zero)
  next
    case 2
    have "uint k = uint r - uint ep + 1"
      unfolding k_def c_def using L r 2 by (rule lossless_code_positive)
    then show ?thesis unfolding c_def using 2(2,3) by (rule lossless_decode_positive [OF L])
  next
    case 3
    have "uint k = uint (f32_abs r) - 2 * uint ep + uint mx + 2"
      unfolding k_def c_def using L r 3 by (rule lossless_code_negative)
    then have "uint (FloatCompressor_decompress c k) = uint (f32_abs r) + 2147483648"
      unfolding c_def using 3(3) uint_f32_abs_lt by (rule lossless_decode_negative [OF L 3(2)])
    then show ?thesis using uint_negative [OF 3(1)] by simp
  next
    case 4
    have "uint k = uint (f32_abs r) + 2147483648 - uint ep + 1"
      unfolding k_def c_def using L r 4 by (rule lossless_code_passed)
    then have "uint (FloatCompressor_decompress c k) = uint (f32_abs r) + 2147483648"
      unfolding c_def using 4(3) uint_f32_abs_lt by (rule lossless_decode_passed [OF L 4(2)])
    then show ?thesis using uint_negative [OF 4(1)] by simp
  qed
  then show ?thesis by (simp add: word_uint_eq_iff c_def k_def r_def)
qed

section \<open>FloatCompressor: inputs that clamp leaves alone\<close>

lemma in_range_facts:
  assumes L: "legal mn ep mx pr"
    and lo: "fle mn x" and hi: "fle x mx" and dz: "fle ep (f32_abs x)"
  shows "uint ep \<le> uint (f32_abs x)"
    and "\<not> f32_sign x \<Longrightarrow> uint x \<le> uint mx"
    and "f32_sign x \<Longrightarrow> f32_sign mn \<and> uint (f32_abs x) \<le> uint (f32_abs mn)"
    and "FloatCompressor_clamp (FloatCompressor_init mn ep mx pr) x = x"
proof -
  note F = legal_facts [OF L]
  have e: "uint ep < 2147483648" "f32_abs ep = ep"
    using F(1) by (simp_all add: f32_sign_uint f32_abs_id)
  have m: "f32_abs mx = mx" using F(4) by (simp add: f32_sign_uint f32_abs_id)
  have "f32_mag ep \<le> f32_mag (f32_abs x)"
    using dz F(1) by (simp add: fle_def f32_val_def)
  then show E: "uint ep \<le> uint (f32_abs x)"
    using f32_mag_le_iff [OF e(1) uint_f32_abs_lt, of x] by simp
  show P: "uint x \<le> uint mx" if s: "\<not> f32_sign x"
  proof -
    have "f32_mag x \<le> f32_mag mx" using hi s F(4) by (simp add: fle_def f32_val_def)
    moreover have "uint x < 2147483648" "uint mx < 2147483648"
      using s F(4) by (simp_all add: f32_sign_uint)
    ultimately show ?thesis by (simp add: f32_mag_le_iff)
  qed
  show N: "f32_sign mn \<and> uint (f32_abs x) \<le> uint (f32_abs mn)" if s: "f32_sign x"
  proof -
    have pos: "0 < f32_mag x"
    proof -
      have "f32_mag 0 < f32_mag ep"
        using f32_mag_mono [of 0 ep] e(1) F(2) by simp
      then show ?thesis using \<open>f32_mag ep \<le> f32_mag (f32_abs x)\<close> by (simp add: f32_mag_0)
    qed
    have v: "f32_val mn \<le> - f32_mag x" using lo s by (simp add: fle_def f32_val_def)
    have n: "f32_sign mn"
    proof (rule ccontr)
      assume "\<not> f32_sign mn"
      then have "f32_val mn = f32_mag mn" by (simp add: f32_val_def)
      then show False using v pos f32_mag_nonneg [of mn] by simp
    qed
    then have "f32_mag x \<le> f32_mag mn" using v by (simp add: f32_val_def)
    then have "uint (f32_abs x) \<le> uint (f32_abs mn)"
      using f32_mag_le_iff [OF uint_f32_abs_lt uint_f32_abs_lt, of x mn] by simp
    then show ?thesis using n by simp
  qed
  show "FloatCompressor_clamp (FloatCompressor_init mn ep mx pr) x = x"
  proof (cases "f32_sign x")
    case False
    then have "f32_abs x = x" by (simp add: f32_abs_id f32_sign_uint)
    then show ?thesis using clamp_positive [OF L False] E P [OF False] by simp
  next
    case True
    then show ?thesis using clamp_negative [OF L True] E N [OF True] by simp
  qed
qed

text \<open>
  C2. In lossless mode (\<open>precision = 23\<close>) with a legal configuration, every \<open>x\<close> with
  \<open>min \<le> x \<le> max\<close> and \<open>|x| \<ge> epsilon\<close> is reproduced bit for bit by
  \<open>decompress (compress x)\<close>.
\<close>

theorem lossless_roundtrip_in_range:
  assumes "legal mn ep mx 23"
    and "fle mn x" and "fle x mx" and "fle ep (f32_abs x)"
  shows "FloatCompressor_decompress (FloatCompressor_init mn ep mx 23)
           (FloatCompressor_compress (FloatCompressor_init mn ep mx 23) x) = x"
  using lossless_roundtrip [OF assms(1)] in_range_facts(4) [OF assms] by simp

theorem lossless_roundtrip_in_range_witness:
  "legal 0xC77FE000 0x38800000 0x477FE000 23 \<and> fle 0xC77FE000 0xC4353F5C \<and>
   fle 0xC4353F5C 0x477FE000 \<and> fle 0x38800000 (f32_abs 0xC4353F5C) \<and>
   FloatCompressor_decompress (FloatCompressor_init 0xC77FE000 0x38800000 0x477FE000 23)
     (FloatCompressor_compress (FloatCompressor_init 0xC77FE000 0x38800000 0x477FE000 23) 0xC4353F5C)
   = 0xC4353F5C"
  using lossless_roundtrip_in_range [of "0xC77FE000" "0x38800000" "0x477FE000" "0xC4353F5C"]
  by (simp add: f32_eval)

section \<open>FloatCompressor, lossy mode: the shifted constants\<close>










section \<open>FloatCompressor, lossy mode: codes\<close>




section \<open>FloatCompressor: the order of the codes\<close>








section \<open>FloatCompressor, lossy mode: decoding\<close>








section \<open>FloatCompressor: the second round trip\<close>










end
